theory Spec2Isabelle
  imports Main "HOL-Library.Word"
begin

unbundle bit_operations_syntax

section \<open>Machine integers of the sketch\<close>

text \<open>
  The sketch \<^verbatim>\<open>clap_detection.ino\<close> computes with two unsigned types.
  \<^verbatim>\<open>unsigned long\<close> is 32 bits wide on every Arduino core and is modelled as
  \<open>32 word\<close>. \<^verbatim>\<open>unsigned int\<close> is 16 bits wide on the AVR boards and 32 bits
  wide on the ARM boards; it is modelled as \<open>'w word\<close>, the width \<open>LENGTH('w)\<close>
  being a parameter of the whole development. The C++ standard guarantees
  \<open>16 \<le> LENGTH('w)\<close>, and \<^verbatim>\<open>unsigned int\<close> is never wider than
  \<^verbatim>\<open>unsigned long\<close>, so \<open>LENGTH('w) \<le> 32\<close>; theorems that need these
  bounds state them as hypotheses.

  An array access outside the bounds of the array is undefined behaviour in C++. The
  model makes it a value: every function that subscripts an array returns
  \<open>Inl OutOfBounds\<close> where the source would leave the array.
\<close>

type_synonym ulong = "32 word"

datatype fault = OutOfBounds

section \<open>The circular buffer (lines 64 to 81)\<close>

text \<open>
  \<^verbatim>\<open>template <typename T, unsigned int buffer_size> class circular_buffer\<close> with its
  three fields. The array \<^verbatim>\<open>T data[buffer_size]\<close> is the list \<open>data\<close>; the template
  argument \<^verbatim>\<open>buffer_size\<close> is the length of that list, read as an
  \<^verbatim>\<open>unsigned int\<close>.
\<close>

record (overloaded) ('t, 'w) circular_buffer =
  head :: "'w word"
  tail :: "'w word"
  data :: "'t list"

definition buffer_size :: "('t, 'w::len) circular_buffer \<Rightarrow> 'w word" where
  "buffer_size c = of_nat (length (data c))"

text \<open>The member initialisers: \<^verbatim>\<open>head = 0\<close>, \<^verbatim>\<open>tail = 0\<close>, \<^verbatim>\<open>data[buffer_size] = {0}\<close>.\<close>

definition circular_buffer_init :: "nat \<Rightarrow> ('t::zero, 'w::len) circular_buffer" where
  "circular_buffer_init n = \<lparr>head = 0, tail = 0, data = replicate n 0\<rparr>"

lemma unat_inc_less:
  fixes i n :: "'w::len word"
  assumes "i < n"
  shows "unat (i + 1) = Suc (unat i)"
proof -
  from assms have "unat i < unat n" by (simp add: word_less_nat_alt)
  moreover have "unat n < 2 ^ LENGTH('w)" by (rule unsigned_less)
  ultimately have "Suc (unat i) < 2 ^ LENGTH('w)" by linarith
  then have "unat i + unat (1::'w word) < 2 ^ LENGTH('w)" by simp
  then have "unat (i + 1) = unat i + unat (1::'w word)" by (simp only: unat_add_lem)
  then show ?thesis by simp
qed

text \<open>
  \<^verbatim>\<open>void clear(T value)\<close>: the loop
  \<^verbatim>\<open>for (unsigned int i = 0; i < buffer_size; i++) data[i] = value;\<close>
  with the counter \<open>i\<close> as loop state. The guard \<open>i < buffer_size\<close> keeps every write
  inside the array.
\<close>

function circular_buffer_clear_loop ::
  "'t \<Rightarrow> 'w::len word \<Rightarrow> ('t, 'w) circular_buffer \<Rightarrow> ('t, 'w) circular_buffer" where
  "circular_buffer_clear_loop v i c =
     (if i < buffer_size c
      then circular_buffer_clear_loop v (i + 1) (c\<lparr>data := (data c)[unat i := v]\<rparr>)
      else c)"
  by pat_completeness auto
termination
proof (relation "measure (\<lambda>(v, i, c). unat (buffer_size c) - unat i)")
  show "wf (measure (\<lambda>(v, i, c). unat (buffer_size c) - unat i))" by simp
next
  fix v :: 't and i :: "'w::len word" and c :: "('t, 'w) circular_buffer"
  assume less: "i < buffer_size c"
  have same: "buffer_size (c\<lparr>data := (data c)[unat i := v]\<rparr>) = buffer_size c"
    by (simp add: buffer_size_def)
  from less have "unat i < unat (buffer_size c)" by (simp add: word_less_nat_alt)
  with unat_inc_less [OF less] same
  show "((v, i + 1, c\<lparr>data := (data c)[unat i := v]\<rparr>), (v, i, c))
          \<in> measure (\<lambda>(v, i, c). unat (buffer_size c) - unat i)"
    by simp
qed

declare circular_buffer_clear_loop.simps [simp del]

definition circular_buffer_clear ::
  "'t \<Rightarrow> ('t, 'w::len) circular_buffer \<Rightarrow> ('t, 'w) circular_buffer" where
  "circular_buffer_clear v c = circular_buffer_clear_loop v 0 c"

text \<open>
  \<^verbatim>\<open>void insert(T element)\<close>: \<^verbatim>\<open>data[head] = element; head++;
  if (head >= buffer_size) head = 0;\<close>. The write leaves the array when
  \<open>head\<close> is not below the length of \<open>data\<close>.
\<close>

definition circular_buffer_insert ::
  "'t \<Rightarrow> ('t, 'w::len) circular_buffer \<Rightarrow> fault + ('t, 'w) circular_buffer" where
  "circular_buffer_insert element c =
     (if unat (head c) < length (data c) then
        (let c1 = c\<lparr>data := (data c)[unat (head c) := element]\<rparr>;
             c2 = c1\<lparr>head := head c1 + 1\<rparr>
         in Inr (if buffer_size c2 \<le> head c2 then c2\<lparr>head := 0\<rparr> else c2))
      else Inl OutOfBounds)"

text \<open>
  \<^verbatim>\<open>T &operator[](unsigned int index)\<close>: the slot is
  \<^verbatim>\<open>(head - index - 1) & (buffer_size - 1)\<close>, computed on \<^verbatim>\<open>unsigned int\<close>.
  The sketch only reads through the returned reference.
\<close>

definition slot :: "('t, 'w::len) circular_buffer \<Rightarrow> 'w word \<Rightarrow> 'w word" where
  "slot c index = (head c - index - 1) AND (buffer_size c - 1)"

definition circular_buffer_subscript ::
  "('t, 'w::len) circular_buffer \<Rightarrow> 'w word \<Rightarrow> fault + 't" where
  "circular_buffer_subscript c index =
     (if unat (slot c index) < length (data c) then Inr (data c ! unat (slot c index))
      else Inl OutOfBounds)"

text \<open>
  A run of \<^verbatim>\<open>insert\<close> calls, one for each element of a list, the first element
  first. The sketch makes such a run through \<^verbatim>\<open>on_sound_detected\<close>, one call for
  each admitted event.
\<close>

fun insert_all ::
  "'t list \<Rightarrow> ('t, 'w::len) circular_buffer \<Rightarrow> fault + ('t, 'w) circular_buffer" where
  "insert_all [] c = Inr c"
| "insert_all (x # xs) c =
     (case circular_buffer_insert x c of Inl e \<Rightarrow> Inl e | Inr c' \<Rightarrow> insert_all xs c')"

section \<open>The clap sequence and its matcher (lines 83 to 111)\<close>

text \<open>
  \<^verbatim>\<open>circular_buffer<unsigned long, 128> clap;\<close> and the configuration
  \<^verbatim>\<open>clap_sequence_timings[] = {1000, 1000}\<close>, \<^verbatim>\<open>clap_sequence_size = 3\<close>,
  \<^verbatim>\<open>max_clap_deviation = 200\<close>, all \<^verbatim>\<open>const unsigned int\<close>.
\<close>

definition clap_init :: "(ulong, 'w::len) circular_buffer" where
  "clap_init = circular_buffer_init 128"

definition clap_sequence_timings :: "'w::len word list" where
  "clap_sequence_timings = [1000, 1000]"

definition clap_sequence_size :: "'w::len word" where
  "clap_sequence_size = 3"

definition max_clap_deviation :: "'w::len word" where
  "max_clap_deviation = 200"

text \<open>
  \<^verbatim>\<open>current_delay += clap[buffer_position];\<close> adds an \<^verbatim>\<open>unsigned long\<close> to an
  \<^verbatim>\<open>unsigned int\<close>: the left operand is converted to \<^verbatim>\<open>unsigned long\<close>, the
  sum is taken there and converted back to \<^verbatim>\<open>unsigned int\<close> by the assignment.
\<close>

definition add_sample :: "'w::len word \<Rightarrow> ulong \<Rightarrow> 'w word" where
  "add_sample current_delay sample = ucast ((ucast current_delay :: ulong) + sample)"

lemma small_width_800: "LENGTH('w::len) \<le> 5 \<Longrightarrow> (800::'w word) = 0"
proof -
  assume a: "LENGTH('w) \<le> 5"
  have "(2::nat) ^ LENGTH('w) dvd 2 ^ 5" using a by (rule le_imp_power_dvd)
  then have "(2::nat) ^ LENGTH('w) dvd 800" by (rule dvd_trans) simp
  then have "(800::nat) mod 2 ^ LENGTH('w) = 0" by (rule dvd_imp_mod_0)
  then have "unat (800::'w word) = 0" by (simp only: unat_numeral)
  then show ?thesis by (simp only: unsigned_eq_0_iff)
qed

lemma unat_le_15:
  fixes bp :: "'w::len word"
  assumes "\<not> 15 < bp"
  shows "unat bp \<le> 15"
proof -
  from assms have "bp \<le> 15" by simp
  then have "unat bp \<le> unat (15::'w word)" by (simp add: word_le_nat_alt)
  also have "\<dots> \<le> 15" by (simp add: unat_numeral)
  finally show ?thesis .
qed

lemma timing_lookup:
  "n < length (clap_sequence_timings :: 'w::len word list)
    \<Longrightarrow> (clap_sequence_timings :: 'w word list) ! n - max_clap_deviation = 800"
  by (cases n) (simp_all add: clap_sequence_timings_def max_clap_deviation_def)

text \<open>
  \<^verbatim>\<open>bool detect_clap_sequence(unsigned int sequence_position,
  unsigned int buffer_position, unsigned int can_skip)\<close>. The function reads and clears
  the global \<^verbatim>\<open>clap\<close>, which the model passes in and returns. One function models
  the body: \<open>detect_clap_sequence_loop\<close> is the state of the \<^verbatim>\<open>while (true)\<close> loop,
  with the local \<^verbatim>\<open>current_delay\<close> as its last argument; the \<^verbatim>\<open>continue\<close> is the
  first recursive call, the \<^verbatim>\<open>break\<close> (followed by \<^verbatim>\<open>return false\<close>) and the two
  \<^verbatim>\<open>return\<close>s are results, and the recursive call of the source is the second
  recursive call, entering the body again with \<^verbatim>\<open>current_delay = 0\<close>.
  \<^verbatim>\<open>clap_sequence_timings[sequence_position]\<close> is read after \<^verbatim>\<open>clap[buffer_position]\<close>,
  as in line 96 and line 97.
\<close>

function detect_clap_sequence_loop ::
  "(ulong, 'w::len) circular_buffer \<Rightarrow> 'w word \<Rightarrow> 'w word \<Rightarrow> 'w word \<Rightarrow> 'w word
    \<Rightarrow> fault + (bool \<times> (ulong, 'w) circular_buffer)" where
  "detect_clap_sequence_loop c sequence_position buffer_position can_skip current_delay =
     (if 15 < buffer_position then Inr (False, c)
      else case circular_buffer_subscript c buffer_position of
        Inl e \<Rightarrow> Inl e
      | Inr sample \<Rightarrow>
          (let current_delay' = add_sample current_delay sample in
           if unat sequence_position < length (clap_sequence_timings :: 'w word list) then
             (let timing = (clap_sequence_timings :: 'w word list) ! unat sequence_position in
              if current_delay' < timing - max_clap_deviation then
                detect_clap_sequence_loop c sequence_position (buffer_position + 1)
                  can_skip current_delay'
              else if timing + max_clap_deviation < current_delay' then Inr (False, c)
              else if sequence_position = 0 then Inr (True, circular_buffer_clear 0 c)
              else detect_clap_sequence_loop c (sequence_position - 1) (buffer_position + 1)
                  can_skip 0)
           else Inl OutOfBounds))"
  by pat_completeness auto
termination
proof (relation "measures [\<lambda>(c, sp, bp, cs, cd). unat sp, \<lambda>(c, sp, bp, cs, cd). 16 - unat bp]")
  show "wf (measures [\<lambda>(c, sp, bp, cs, cd). unat sp,
      \<lambda>(c :: (ulong, 'w::len) circular_buffer, sp :: 'w word, bp :: 'w word, cs :: 'w word,
         cd :: 'w word). 16 - unat bp])"
    by simp
next
  fix c :: "(ulong, 'w::len) circular_buffer" and sp bp cs cd cd' timing :: "'w word"
    and sample :: ulong
  assume bound: "\<not> 15 < bp"
    and idx: "unat sp < length (clap_sequence_timings :: 'w word list)"
    and t: "timing = clap_sequence_timings ! unat sp"
    and low: "cd' < timing - max_clap_deviation"
  from low t timing_lookup [OF idx] have "cd' < (800::'w word)" by simp
  with word_zero_le [of cd'] have "(0::'w word) < 800" by (rule le_less_trans)
  then have "(0::'w word) \<noteq> 800" by (rule less_imp_neq)
  with small_width_800 [where 'w = 'w] have "\<not> LENGTH('w) \<le> 5" by metis
  then have width: "6 \<le> LENGTH('w)" by simp
  have "(2::nat) ^ 6 \<le> 2 ^ LENGTH('w)" using width by (rule power_increasing) simp
  then have big: "(64::nat) \<le> 2 ^ LENGTH('w)" by simp
  have "unat bp + unat (1::'w word) < 2 ^ LENGTH('w)"
    using unat_le_15 [OF bound] big by simp
  then have "unat (bp + 1) = unat bp + unat (1::'w word)" by (simp only: unat_add_lem)
  then have "unat (bp + 1) = Suc (unat bp)" by simp
  with unat_le_15 [OF bound]
  show "((c, sp, bp + 1, cs, cd'), (c, sp, bp, cs, cd))
      \<in> measures [\<lambda>(c, sp, bp, cs, cd). unat sp, \<lambda>(c, sp, bp, cs, cd). 16 - unat bp]"
    by simp
next
  fix c :: "(ulong, 'w::len) circular_buffer" and sp bp cs cd cd' timing :: "'w word"
    and sample :: ulong
  assume "sp \<noteq> 0"
  then have "unat sp \<noteq> 0" by (simp only: unsigned_eq_0_iff) simp
  moreover have "unat (sp - 1) = unat sp - 1" by (rule unat_minus_one) fact
  ultimately
  show "((c, sp - 1, bp + 1, cs, 0), (c, sp, bp, cs, cd))
      \<in> measures [\<lambda>(c, sp, bp, cs, cd). unat sp, \<lambda>(c, sp, bp, cs, cd). 16 - unat bp]"
    by simp
qed

declare detect_clap_sequence_loop.simps [simp del]

definition detect_clap_sequence ::
  "(ulong, 'w::len) circular_buffer \<Rightarrow> 'w word \<Rightarrow> 'w word \<Rightarrow> 'w word
    \<Rightarrow> fault + (bool \<times> (ulong, 'w) circular_buffer)" where
  "detect_clap_sequence c sequence_position buffer_position can_skip =
     detect_clap_sequence_loop c sequence_position buffer_position can_skip 0"

section \<open>The sketch around the matcher (lines 51 to 62 and 113 to 175)\<close>

text \<open>
  The pins and thresholds of the \<^verbatim>\<open>#define\<close> lines. \<^verbatim>\<open>ULTRASONIC_TIMEOUT\<close> is
  compared with an \<^verbatim>\<open>unsigned long\<close> and is one; \<^verbatim>\<open>BROWNOUT\<close> is compared with
  the \<^verbatim>\<open>int\<close> that \<^verbatim>\<open>analogRead\<close> returns, a value from 0 to 1023, and is an
  integer.
\<close>

definition US_GND_PIN :: nat where "US_GND_PIN = 12"

definition US_TRIG_PIN :: nat where "US_TRIG_PIN = 10"

definition US_VCC_PIN :: nat where "US_VCC_PIN = 9"

definition LED_PIN :: nat where "LED_PIN = 4"

definition SERVO_MIN_ANGLE :: int where "SERVO_MIN_ANGLE = 10"

definition SERVO_MAX_ANGLE :: int where "SERVO_MAX_ANGLE = 150"

definition ULTRASONIC_TIMEOUT :: ulong where "ULTRASONIC_TIMEOUT = 133000"

definition BROWNOUT :: int where "BROWNOUT = 720"

text \<open>
  What the sketch does to the outside, in the order it does it: pin writes, delays,
  serial output and servo commands. \<^verbatim>\<open>pinMode\<close>, \<^verbatim>\<open>servo.attach\<close> and
  \<^verbatim>\<open>Serial.begin\<close> configure the board and have no entry.
\<close>

datatype effect =
    DigitalWrite nat bool
  | DelayMicroseconds nat
  | Delay nat
  | Serial_print ulong
  | Serial_write char
  | Serial_println_bool bool
  | Serial_println_ulong ulong
  | Serial_println_int int
  | Servo_write int

text \<open>
  The state that outlives a call: the global \<^verbatim>\<open>clap\<close>, the static local
  \<^verbatim>\<open>last_clap_time\<close> of \<^verbatim>\<open>on_sound_detected\<close> (\<open>None\<close> until its initialiser has
  run, in the first call) and the static local \<^verbatim>\<open>claw_state\<close> of
  \<^verbatim>\<open>on_sequence_detected\<close>.
\<close>

record (overloaded) 'w sketch =
  clap :: "(ulong, 'w) circular_buffer"
  last_clap_time :: "ulong option"
  claw_state :: bool

text \<open>
  What one pass of \<^verbatim>\<open>loop\<close> reads from the board: the result of \<^verbatim>\<open>pulseIn\<close>, the
  two \<^verbatim>\<open>analogRead\<close> results and the clock. \<^verbatim>\<open>ULTRASONIC_DETECT_PIN\<close> has no
  \<^verbatim>\<open>#define\<close> in the sketch; the value read there is an input that is only printed.
  \<open>millis_first\<close> is the clock read by the initialiser of \<^verbatim>\<open>last_clap_time\<close>,
  \<open>millis_now\<close> the one read into \<^verbatim>\<open>now\<close>.
\<close>

record cycle_input =
  pulse_duration :: ulong
  detect_reading :: int
  brownout_reading :: int
  millis_first :: ulong
  millis_now :: ulong

text \<open>
  \<^verbatim>\<open>void on_sequence_detected()\<close>: flip \<^verbatim>\<open>claw_state\<close> and move the servo.
\<close>

definition on_sequence_detected :: "'w::len sketch \<Rightarrow> 'w sketch \<times> effect list" where
  "on_sequence_detected s =
     (let s' = s\<lparr>claw_state := \<not> claw_state s\<rparr>
      in (s', [Servo_write (if claw_state s' then SERVO_MIN_ANGLE else SERVO_MAX_ANGLE)]))"

text \<open>
  The loop \<^verbatim>\<open>for (unsigned int i = 0; i < 4; i++) { Serial.print(clap[i]);
  Serial.write(' '); }\<close> of \<^verbatim>\<open>on_sound_detected\<close>.
\<close>

function print_loop :: "(ulong, 'w::len) circular_buffer \<Rightarrow> 'w word \<Rightarrow> fault + effect list" where
  "print_loop c i =
     (if i < 4 then
        (case circular_buffer_subscript c i of
           Inl e \<Rightarrow> Inl e
         | Inr v \<Rightarrow>
             (case print_loop c (i + 1) of
                Inl e \<Rightarrow> Inl e
              | Inr rest \<Rightarrow> Inr (Serial_print v # Serial_write (CHR '' '') # rest)))
      else Inr [])"
  by pat_completeness auto

termination
proof (relation "measure (\<lambda>(c, i). 4 - unat i)")
  fix c :: "(ulong, 'w::len) circular_buffer" and i :: "'w word" and v :: ulong
  assume less: "i < 4"
  then have "unat i < unat (4 :: 'w word)" by (simp only: word_less_nat_alt)
  also have "\<dots> \<le> 4" by (simp add: unat_numeral)
  finally have "unat i < 4" .
  with unat_inc_less [OF less]
  show "((c, i + 1), (c, i)) \<in> measure (\<lambda>(c, i). 4 - unat i)"
    by simp
qed simp

declare print_loop.simps [simp del]

text \<open>
  \<^verbatim>\<open>void on_sound_detected()\<close>: insert the time since the last clap, print the four
  newest samples, run the matcher from \<^verbatim>\<open>clap_sequence_size - 2\<close>, act on a match, and
  blink the LED.
\<close>

definition on_sound_detected ::
  "cycle_input \<Rightarrow> 'w::len sketch \<Rightarrow> fault + ('w sketch \<times> effect list)" where
  "on_sound_detected inp s =
     (let last = (case last_clap_time s of None \<Rightarrow> millis_first inp | Some t \<Rightarrow> t);
          now = millis_now inp
      in case circular_buffer_insert (now - last) (clap s) of
           Inl e \<Rightarrow> Inl e
         | Inr c1 \<Rightarrow>
            (case print_loop c1 0 of
               Inl e \<Rightarrow> Inl e
             | Inr printed \<Rightarrow>
                (case detect_clap_sequence c1 (clap_sequence_size - 2) 0 0 of
                   Inl e \<Rightarrow> Inl e
                 | Inr (detected_sequence, c2) \<Rightarrow>
                    (let s1 = s\<lparr>clap := c2, last_clap_time := Some now\<rparr>;
                         (s2, acted) =
                           (if detected_sequence then on_sequence_detected s1 else (s1, []))
                     in Inr (s2, printed @ [Serial_println_bool detected_sequence] @ acted @
                          [DigitalWrite LED_PIN True, Delay 60, DigitalWrite LED_PIN False])))))"

text \<open>
  \<^verbatim>\<open>trigger()\<close> and \<^verbatim>\<open>loop()\<close>. The condition of line 172 is
  \<^verbatim>\<open>pulse_duration < ULTRASONIC_TIMEOUT && analogRead(BROWNOUT_DETECT_PIN) < BROWNOUT\<close>.
\<close>

definition trigger :: "effect list" where
  "trigger = [DigitalWrite US_TRIG_PIN False, DelayMicroseconds 4,
     DigitalWrite US_TRIG_PIN True, DelayMicroseconds 10, DigitalWrite US_TRIG_PIN False]"

definition loop :: "cycle_input \<Rightarrow> 'w::len sketch \<Rightarrow> fault + ('w sketch \<times> effect list)" where
  "loop inp s =
     (let measured = trigger @
        [Serial_println_ulong (pulse_duration inp), Serial_println_int (detect_reading inp)]
      in if pulse_duration inp < ULTRASONIC_TIMEOUT \<and> brownout_reading inp < BROWNOUT then
           (case on_sound_detected inp s of
              Inl e \<Rightarrow> Inl e
            | Inr (s', out) \<Rightarrow> Inr (s', measured @ out))
         else Inr (s, measured))"

text \<open>
  The start-up function of the sketch, lines 143 to 157, whose name in the source is a
  keyword here: the three pin writes, \<^verbatim>\<open>servo.write(0)\<close> and one call of
  \<^verbatim>\<open>on_sequence_detected\<close>, from the initial values of the globals and statics. Then
  a run of passes of \<^verbatim>\<open>loop\<close>, one for each input of a list.
\<close>

definition sketch_setup :: "'w::len sketch \<times> effect list" where
  "sketch_setup =
     (let (s, out) = on_sequence_detected
        \<lparr>clap = clap_init, last_clap_time = None, claw_state = False\<rparr>
      in (s, [DigitalWrite US_GND_PIN False, DigitalWrite US_VCC_PIN True,
              DigitalWrite LED_PIN False, Servo_write 0] @ out))"

fun run :: "cycle_input list \<Rightarrow> 'w::len sketch \<Rightarrow> fault + ('w sketch \<times> effect list)" where
  "run [] s = Inr (s, [])"
| "run (inp # inps) s =
     (case loop inp s of
        Inl e \<Rightarrow> Inl e
      | Inr (s', out) \<Rightarrow>
          (case run inps s' of Inl e \<Rightarrow> Inl e | Inr (s'', out') \<Rightarrow> Inr (s'', out @ out')))"

section \<open>Observations and concrete inputs\<close>

text \<open>
  An event is admitted in a pass when the pass switches the LED on, which
  \<^verbatim>\<open>on_sound_detected\<close> does and nothing else in \<^verbatim>\<open>loop\<close> does. \<open>servo_writes\<close>
  lists the angles sent to the servo. \<open>sound_at t\<close> is a pass at clock \<open>t\<close> with a short
  pulse and a power-rail reading of 500.
\<close>

definition admitted :: "fault + ('w sketch \<times> effect list) \<Rightarrow> bool" where
  "admitted r = (case r of Inl e \<Rightarrow> False
     | Inr (s, out) \<Rightarrow> DigitalWrite LED_PIN True \<in> set out)"

definition servo_writes :: "fault + ('w sketch \<times> effect list) \<Rightarrow> int list option" where
  "servo_writes r = (case r of Inl e \<Rightarrow> None
     | Inr (s, out) \<Rightarrow> Some (concat (map (\<lambda>x. case x of Servo_write a \<Rightarrow> [a] | _ \<Rightarrow> []) out)))"

definition sound_at :: "ulong \<Rightarrow> cycle_input" where
  "sound_at t = \<lparr>pulse_duration = 1000, detect_reading = 0, brownout_reading = 500,
     millis_first = t, millis_now = t\<rparr>"

text \<open>
  The four slots of the ring that a run writes first.
\<close>

definition ring_of_run :: "fault + ('w sketch \<times> effect list) \<Rightarrow> ulong list option" where
  "ring_of_run r = (case r of Inl e \<Rightarrow> None | Inr (s, out) \<Rightarrow> Some (take 4 (data (clap s))))"

text \<open>
  Rings of the 16 bit build, written with the newest sample at the slot before the head
  cursor.
\<close>


definition ring_exact :: "(ulong, 16) circular_buffer" where
  "ring_exact = \<lparr>head = 2, tail = 0, data = 1000 # 1000 # replicate 126 0\<rparr>"

definition ring_cleared :: "(ulong, 16) circular_buffer" where
  "ring_cleared = \<lparr>head = 2, tail = 0, data = replicate 128 0\<rparr>"

definition ring_boundary :: "(ulong, 16) circular_buffer" where
  "ring_boundary = \<lparr>head = 2, tail = 0, data = 1200 # 800 # replicate 126 0\<rparr>"

definition ring_truncated :: "(ulong, 16) circular_buffer" where
  "ring_truncated = \<lparr>head = 2, tail = 0, data = 1000 # 66536 # replicate 126 0\<rparr>"

definition ring_greedy :: "(ulong, 16) circular_buffer" where
  "ring_greedy = \<lparr>head = 4, tail = 0, data = 1000 # 250 # 400 # 450 # replicate 124 0\<rparr>"

section \<open>Auxiliary facts\<close>

lemma width16: "16 \<le> LENGTH('w::len) \<Longrightarrow> (65536::nat) \<le> 2 ^ LENGTH('w)"
proof -
  assume "16 \<le> LENGTH('w)"
  then have "(2::nat) ^ 16 \<le> 2 ^ LENGTH('w)" by (rule power_increasing) simp
  then show ?thesis by simp
qed

lemma unat_of_nat_small:
  assumes "16 \<le> LENGTH('w::len)" and "n < 65536"
  shows "unat (of_nat n :: 'w word) = n"
proof -
  from width16 [OF assms(1)] assms(2) have "n < 2 ^ LENGTH('w)" by linarith
  then show ?thesis by (simp add: unat_of_nat)
qed

lemma unat_800: "16 \<le> LENGTH('w::len) \<Longrightarrow> unat (800 :: 'w word) = 800"
  using unat_of_nat_small [of 800, where 'w = 'w] by simp

lemma unat_1200: "16 \<le> LENGTH('w::len) \<Longrightarrow> unat (1200 :: 'w word) = 1200"
  using unat_of_nat_small [of 1200, where 'w = 'w] by simp

lemma unat_15: "16 \<le> LENGTH('w::len) \<Longrightarrow> unat (15 :: 'w word) = 15"
  using unat_of_nat_small [of 15, where 'w = 'w] by simp

lemma unat_128: "16 \<le> LENGTH('w::len) \<Longrightarrow> unat (128 :: 'w word) = 128"
  using unat_of_nat_small [of 128, where 'w = 'w] by simp

lemma unat_add_sample:
  assumes "LENGTH('w::len) \<le> 32"
  shows "unat (add_sample (cd :: 'w word) s) = (unat cd + unat s) mod 2 ^ LENGTH('w)"
proof -
  have dvd: "(2::nat) ^ LENGTH('w) dvd 2 ^ 32" using assms by (rule le_imp_power_dvd)
  have "unat cd < 2 ^ LENGTH('w)" by (rule unsigned_less)
  also have "(2::nat) ^ LENGTH('w) \<le> 2 ^ 32" using assms by (rule power_increasing) simp
  finally have up: "unat (ucast cd :: ulong) = unat cd"
    by (simp add: unsigned_ucast_eq take_bit_nat_eq_self)
  have "unat (add_sample cd s) = unat ((ucast cd :: ulong) + s) mod 2 ^ LENGTH('w)"
    by (simp add: add_sample_def unsigned_ucast_eq take_bit_eq_mod)
  also have "unat ((ucast cd :: ulong) + s) = (unat cd + unat s) mod 2 ^ 32"
    by (simp add: unat_word_ariths up)
  also have "(unat cd + unat s) mod 2 ^ 32 mod 2 ^ LENGTH('w) = (unat cd + unat s) mod 2 ^ LENGTH('w)"
    using dvd by (rule mod_mod_cancel)
  finally show ?thesis .
qed

lemma slot_in_bounds:
  fixes c :: "('t, 'w::len) circular_buffer"
  assumes "0 < length (data c)"
  shows "unat (slot c i) < length (data c)"
proof -
  define n where "n = length (data c)"
  from assms obtain k where k: "n = Suc k" by (cases n) (simp_all add: n_def)
  have m: "buffer_size c - 1 = (of_nat (n - 1) :: 'w word)"
    unfolding buffer_size_def n_def [symmetric] k by simp
  have "slot c i \<le> buffer_size c - 1"
    unfolding slot_def by (rule word_and_le1)
  then have "unat (slot c i) \<le> unat (of_nat (n - 1) :: 'w word)"
    by (simp add: m word_le_nat_alt)
  also have "\<dots> \<le> n - 1" by (simp add: unat_of_nat)
  also have "\<dots> < n" using assms by (simp add: n_def)
  finally show ?thesis by (simp add: n_def)
qed

lemma subscript_total:
  "0 < length (data c) \<Longrightarrow> circular_buffer_subscript c i = Inr (data c ! unat (slot c i))"
  by (simp add: circular_buffer_subscript_def slot_in_bounds)

lemma buffer_size_less:
  fixes c :: "('t, 'w::len) circular_buffer"
  assumes "length (data c) < 2 ^ LENGTH('w)"
  shows "i < buffer_size c \<longleftrightarrow> unat i < length (data c)"
  using assms by (simp add: buffer_size_def word_less_nat_alt unat_of_nat)

lemma clear_loop_data:
  fixes c :: "('t, 'w::len) circular_buffer"
  shows "length (data c) < 2 ^ LENGTH('w) \<Longrightarrow> unat i \<le> length (data c) \<Longrightarrow>
    circular_buffer_clear_loop v i c =
      c\<lparr>data := take (unat i) (data c) @ replicate (length (data c) - unat i) v\<rparr>"
proof (induction v i c rule: circular_buffer_clear_loop.induct)
  case (1 v i c)
  show ?case
  proof (cases "i < buffer_size c")
    case True
    let ?c' = "c\<lparr>data := (data c)[unat i := v]\<rparr>"
    from True "1.prems" have lt: "unat i < length (data c)"
      by (simp add: buffer_size_less)
    have suc: "unat (i + 1) = Suc (unat i)" using True by (rule unat_inc_less)
    have "circular_buffer_clear_loop v (i + 1) ?c' =
        ?c'\<lparr>data := take (unat (i + 1)) (data ?c') @
          replicate (length (data ?c') - unat (i + 1)) v\<rparr>"
      using True "1.prems" lt suc by (intro "1.IH") simp_all
    moreover have "take (Suc (unat i)) ((data c)[unat i := v]) = take (unat i) (data c) @ [v]"
      using lt by (simp add: take_Suc_conv_app_nth)
    moreover have "replicate (length (data c) - unat i) v
        = v # replicate (length (data c) - Suc (unat i)) v"
      using lt by (simp add: Suc_diff_Suc flip: replicate_Suc)
    ultimately show ?thesis
      using True by (subst circular_buffer_clear_loop.simps) (simp add: suc)
  next
    case False
    with "1.prems" have "unat i = length (data c)"
      by (simp add: buffer_size_less)
    with False show ?thesis
      by (subst circular_buffer_clear_loop.simps) simp
  qed
qed

lemma clear_data:
  fixes c :: "('t, 'w::len) circular_buffer"
  assumes "length (data c) < 2 ^ LENGTH('w)"
  shows "circular_buffer_clear v c = c\<lparr>data := replicate (length (data c)) v\<rparr>"
  using clear_loop_data [OF assms, of 0 v] by (simp add: circular_buffer_clear_def)

lemma length_timings: "length (clap_sequence_timings :: 'w::len word list) = 2"
  by (simp add: clap_sequence_timings_def)

lemma timing_nth: "n < 2 \<Longrightarrow> (clap_sequence_timings :: 'w::len word list) ! n = 1000"
  by (cases n) (simp_all add: clap_sequence_timings_def)

lemma lower_bound_nat:
  "16 \<le> LENGTH('w::len) \<Longrightarrow> (x < (1000::'w word) - max_clap_deviation) = (unat x < 800)"
proof -
  assume w: "16 \<le> LENGTH('w)"
  have "(1000::'w word) - max_clap_deviation = 800" by (simp add: max_clap_deviation_def)
  then show ?thesis by (simp only: word_less_nat_alt unat_800 [OF w])
qed

lemma upper_bound_nat:
  "16 \<le> LENGTH('w::len) \<Longrightarrow> ((1000::'w word) + max_clap_deviation < x) = (1200 < unat x)"
proof -
  assume w: "16 \<le> LENGTH('w)"
  have "(1000::'w word) + max_clap_deviation = 1200" by (simp add: max_clap_deviation_def)
  then show ?thesis by (simp only: word_less_nat_alt unat_1200 [OF w])
qed

lemma lookahead_nat:
  "16 \<le> LENGTH('w::len) \<Longrightarrow> (15 < (bp::'w word)) = (15 < unat bp)"
  by (simp only: word_less_nat_alt unat_15)

lemma detect_step:
  fixes c :: "(ulong, 'w::len) circular_buffer"
  assumes "16 \<le> LENGTH('w)" and "0 < length (data c)" and "unat sp < 2"
    and "unat bp \<le> 15"
  shows "detect_clap_sequence_loop c sp bp cs cd =
    (let cd' = add_sample cd (data c ! unat (slot c bp)) in
     if unat cd' < 800 then detect_clap_sequence_loop c sp (bp + 1) cs cd'
     else if 1200 < unat cd' then Inr (False, c)
     else if sp = 0 then Inr (True, circular_buffer_clear 0 c)
     else detect_clap_sequence_loop c (sp - 1) (bp + 1) cs 0)"
  using assms
  by (subst detect_clap_sequence_loop.simps)
    (simp add: lookahead_nat subscript_total length_timings timing_nth lower_bound_nat
      upper_bound_nat Let_def)

lemma detect_beyond:
  fixes c :: "(ulong, 'w::len) circular_buffer"
  assumes "16 \<le> LENGTH('w)" and "15 < unat bp"
  shows "detect_clap_sequence_loop c sp bp cs cd = Inr (False, c)"
  using assms
  by (subst detect_clap_sequence_loop.simps) (simp add: lookahead_nat)

lemma loop_result:
  fixes c :: "(ulong, 'w::len) circular_buffer"
  shows "0 < length (data c) \<Longrightarrow> unat sp < 2 \<Longrightarrow>
    detect_clap_sequence_loop c sp bp cs cd = Inr (False, c) \<or>
    detect_clap_sequence_loop c sp bp cs cd = Inr (True, circular_buffer_clear 0 c)"
proof (induction c sp bp cs cd rule: detect_clap_sequence_loop.induct)
  case (1 c sp bp cs cd)
  let ?s = "data c ! unat (slot c bp)"
  let ?cd = "add_sample cd ?s"
  let ?t = "(clap_sequence_timings :: 'w word list) ! unat sp"
  have sub: "circular_buffer_subscript c bp = Inr ?s"
    using "1.prems" by (simp add: subscript_total)
  have idx: "unat sp < length (clap_sequence_timings :: 'w word list)"
    using "1.prems" by (simp add: length_timings)
  note unfold = detect_clap_sequence_loop.simps [of c sp bp cs cd]
  consider (far) "15 < bp"
    | (absorb) "\<not> 15 < bp" "?cd < ?t - max_clap_deviation"
    | (over) "\<not> 15 < bp" "\<not> ?cd < ?t - max_clap_deviation" "?t + max_clap_deviation < ?cd"
    | (last) "\<not> 15 < bp" "\<not> ?cd < ?t - max_clap_deviation"
        "\<not> ?t + max_clap_deviation < ?cd" "sp = 0"
    | (recurse) "\<not> 15 < bp" "\<not> ?cd < ?t - max_clap_deviation"
        "\<not> ?t + max_clap_deviation < ?cd" "sp \<noteq> 0"
    by blast
  then show ?case
  proof cases
    case far
    show ?thesis by (simp only: unfold) (use far in simp)
  next
    case absorb
    from "1.IH"(1) [OF absorb(1) sub refl idx refl absorb(2) "1.prems"]
    show ?thesis by (simp only: unfold) (use absorb sub idx in simp)
  next
    case over
    show ?thesis by (simp only: unfold) (use over sub idx in simp)
  next
    case last
    show ?thesis by (simp only: unfold) (use last sub idx in simp)
  next
    case recurse
    have "unat (sp - 1) = unat sp - 1" using recurse(4) by (rule unat_minus_one)
    with "1.prems" have "unat (sp - 1) < 2" by simp
    from "1.IH"(2) [OF recurse(1) sub refl idx refl recurse(2) recurse(3) recurse(4)
        "1.prems"(1) this]
    show ?thesis by (simp only: unfold) (use recurse sub idx in simp)
  qed
qed

lemma loop_can_skip:
  fixes c :: "(ulong, 'w::len) circular_buffer"
  shows "detect_clap_sequence_loop c sp bp cs cd = detect_clap_sequence_loop c sp bp cs' cd"
proof (induction c sp bp cs cd rule: detect_clap_sequence_loop.induct)
  case (1 c sp bp cs cd)
  note unfold = detect_clap_sequence_loop.simps [of c sp bp cs cd]
    detect_clap_sequence_loop.simps [of c sp bp cs' cd]
  show ?case
  proof (cases "circular_buffer_subscript c bp")
    case (Inl e)
    then show ?thesis by (simp only: unfold) simp
  next
    case (Inr s)
    let ?cd = "add_sample cd s"
    let ?t = "(clap_sequence_timings :: 'w word list) ! unat sp"
    consider (far) "15 < bp"
      | (undef) "\<not> 15 < bp" "\<not> unat sp < length (clap_sequence_timings :: 'w word list)"
      | (absorb) "\<not> 15 < bp" "unat sp < length (clap_sequence_timings :: 'w word list)"
          "?cd < ?t - max_clap_deviation"
      | (stop) "\<not> 15 < bp" "unat sp < length (clap_sequence_timings :: 'w word list)"
          "\<not> ?cd < ?t - max_clap_deviation" "?t + max_clap_deviation < ?cd \<or> sp = 0"
      | (recurse) "\<not> 15 < bp" "unat sp < length (clap_sequence_timings :: 'w word list)"
          "\<not> ?cd < ?t - max_clap_deviation" "\<not> ?t + max_clap_deviation < ?cd" "sp \<noteq> 0"
      by blast
    then show ?thesis
    proof cases
      case far
      show ?thesis by (simp only: unfold) (use far in simp)
    next
      case undef
      show ?thesis by (simp only: unfold) (use undef Inr in simp)
    next
      case absorb
      from "1.IH"(1) [OF absorb(1) Inr refl absorb(2) refl absorb(3)]
      show ?thesis by (simp only: unfold) (use absorb Inr in simp)
    next
      case stop
      show ?thesis by (simp only: unfold) (use stop Inr in auto)
    next
      case recurse
      from "1.IH"(2) [OF recurse(1) Inr refl recurse(2) refl recurse(3) recurse(4) recurse(5)]
      show ?thesis by (simp only: unfold) (use recurse Inr in simp)
    qed
  qed
qed

lemma loop_zero:
  fixes c :: "(ulong, 'w::len) circular_buffer"
  assumes w: "16 \<le> LENGTH('w)" and w32: "LENGTH('w) \<le> 32"
    and len: "0 < length (data c)" and z: "\<forall>x \<in> set (data c). x = 0"
    and sp: "unat sp < 2"
  shows "detect_clap_sequence_loop c sp bp cs 0 = Inr (False, c)"
proof (induction "16 - unat bp" arbitrary: bp)
  case 0
  then have "15 < unat bp" by simp
  with w show ?case by (rule detect_beyond)
next
  case (Suc n)
  then have bp: "unat bp \<le> 15" by simp
  have "data c ! unat (slot c bp) \<in> set (data c)"
    using len by (simp add: slot_in_bounds)
  with z have s: "data c ! unat (slot c bp) = 0" by blast
  have cd: "unat (add_sample (0::'w word) (0::ulong)) = 0"
    by (simp add: unat_add_sample [OF w32])
  have "bp < 16"
    using bp w by (simp add: word_less_nat_alt unat_of_nat_small [of 16, where 'w = 'w, simplified])
  then have "unat (bp + 1) = Suc (unat bp)" by (rule unat_inc_less)
  with Suc have "n = 16 - unat (bp + 1)" by simp
  then have "detect_clap_sequence_loop c sp (bp + 1) cs 0 = Inr (False, c)" by (rule Suc.hyps)
  moreover have "add_sample (0::'w word) (0::ulong) = 0"
    using cd by (simp only: unsigned_eq_0_iff)
  ultimately show ?case
    by (simp add: detect_step [OF w len sp bp] s)
qed

lemma loop_ring:
  fixes c :: "(ulong, 'w::len) circular_buffer"
  shows "detect_clap_sequence_loop c sp bp cs cd = Inr (b, c') \<Longrightarrow>
    c' = (if b then circular_buffer_clear 0 c else c)"
proof (induction c sp bp cs cd rule: detect_clap_sequence_loop.induct)
  case (1 c sp bp cs cd)
  note unfold = detect_clap_sequence_loop.simps [of c sp bp cs cd]
  show ?case
  proof (cases "circular_buffer_subscript c bp")
    case (Inl e)
    with "1.prems" show ?thesis by (simp add: unfold split: if_splits)
  next
    case (Inr s)
    let ?cd = "add_sample cd s"
    let ?t = "(clap_sequence_timings :: 'w word list) ! unat sp"
    consider (far) "15 < bp"
      | (undef) "\<not> 15 < bp" "\<not> unat sp < length (clap_sequence_timings :: 'w word list)"
      | (absorb) "\<not> 15 < bp" "unat sp < length (clap_sequence_timings :: 'w word list)"
          "?cd < ?t - max_clap_deviation"
      | (stop) "\<not> 15 < bp" "unat sp < length (clap_sequence_timings :: 'w word list)"
          "\<not> ?cd < ?t - max_clap_deviation" "?t + max_clap_deviation < ?cd \<or> sp = 0"
      | (recurse) "\<not> 15 < bp" "unat sp < length (clap_sequence_timings :: 'w word list)"
          "\<not> ?cd < ?t - max_clap_deviation" "\<not> ?t + max_clap_deviation < ?cd" "sp \<noteq> 0"
      by blast
    then show ?thesis
    proof cases
      case far
      with "1.prems" show ?thesis by (simp add: unfold)
    next
      case undef
      with "1.prems" Inr show ?thesis by (simp add: unfold)
    next
      case absorb
      from "1.prems" absorb Inr
      have "detect_clap_sequence_loop c sp (bp + 1) cs ?cd = Inr (b, c')"
        by (simp add: unfold)
      with "1.IH"(1) [OF absorb(1) Inr refl absorb(2) refl absorb(3)] show ?thesis .
    next
      case stop
      with "1.prems" Inr show ?thesis by (auto simp: unfold split: if_splits)
    next
      case recurse
      from "1.prems" recurse Inr
      have "detect_clap_sequence_loop c (sp - 1) (bp + 1) cs 0 = Inr (b, c')"
        by (simp add: unfold)
      with "1.IH"(2) [OF recurse(1) Inr refl recurse(2) refl recurse(3) recurse(4) recurse(5)]
      show ?thesis .
    qed
  qed
qed

lemma ucast_timing:
  assumes "16 \<le> LENGTH('w::len)"
  shows "(ucast (1000 :: 'w word) :: ulong) = 1000"
proof -
  have small: "unat (1000 :: 'w word) = 1000"
    using unat_of_nat_small [OF assms, of 1000] by simp
  have "unat (ucast (1000 :: 'w word) :: ulong) = take_bit 32 (unat (1000 :: 'w word))"
    by (simp only: unsigned_ucast_eq) simp
  also have "\<dots> = 1000" by (simp only: small) simp
  finally have "unat (ucast (1000 :: 'w word) :: ulong) = unat (1000 :: ulong)" by simp
  then show ?thesis by (simp only: word_unat_eq_iff)
qed

lemma width_dvd: "16 \<le> LENGTH('w::len) \<Longrightarrow> (128::int) dvd 2 ^ LENGTH('w)"
proof -
  assume "16 \<le> LENGTH('w)"
  then have "7 \<le> LENGTH('w)" by simp
  then have "(2::int) ^ 7 dvd 2 ^ LENGTH('w)" by (rule le_imp_power_dvd)
  then show ?thesis by simp
qed

lemma slot_uint:
  fixes c :: "('t, 'w::len) circular_buffer"
  assumes w: "16 \<le> LENGTH('w)" and len: "length (data c) = 128"
  shows "uint (slot c i) = (uint (head c) - uint i - 1) mod 128"
proof -
  have big: "(128::int) \<le> 2 ^ LENGTH('w)"
    using width_dvd [OF w] by (rule zdvd_imp_le) simp
  have "slot c i = (head c - i - 1) AND mask 7"
    by (simp add: slot_def buffer_size_def len mask_eq_exp_minus_1)
  then have "slot c i = take_bit 7 (head c - i - 1)"
    by (simp only: take_bit_eq_mask)
  then have "uint (slot c i) = take_bit 7 (uint (head c - i - 1))"
    by (simp only: unsigned_take_bit_eq)
  then have "uint (slot c i) = uint (head c - i - 1) mod 2 ^ 7"
    by (simp only: take_bit_eq_mod)
  also have "uint (head c - i - 1) = (uint (head c) - uint i - 1) mod 2 ^ LENGTH('w)"
    by (simp add: uint_word_ariths mod_diff_left_eq)
  also have "(uint (head c) - uint i - 1) mod 2 ^ LENGTH('w) mod 2 ^ 7
      = (uint (head c) - uint i - 1) mod 2 ^ 7"
    using width_dvd [OF w] by (simp add: mod_mod_cancel)
  finally show ?thesis by simp
qed

lemma head_less_128:
  fixes h :: "'w::len word"
  assumes w: "16 \<le> LENGTH('w)"
  shows "(h < 128) = (unat h < 128)"
  by (simp only: word_less_nat_alt unat_128 [OF w])

lemma insert_ok:
  fixes c :: "('t, 'w::len) circular_buffer"
  assumes w: "16 \<le> LENGTH('w)" and len: "length (data c) = 128"
    and hd: "unat (head c) < 128"
  shows "circular_buffer_insert x c =
    Inr (c\<lparr>data := (data c)[unat (head c) := x],
      head := (if unat (head c) = 127 then 0 else head c + 1)\<rparr>)"
proof -
  from hd have "head c < 128" by (simp only: head_less_128 [OF w])
  then have suc: "unat (head c + 1) = Suc (unat (head c))" by (rule unat_inc_less)
  have "(128 \<le> head c + 1) = (unat (head c) = 127)"
    using hd by (simp only: word_le_nat_alt unat_128 [OF w] suc) arith
  then show ?thesis
    using hd by (simp add: circular_buffer_insert_def len buffer_size_def Let_def)
qed

lemma uint_small:
  assumes w: "16 \<le> LENGTH('w::len)" and n: "n < 65536"
  shows "uint (of_nat n :: 'w word) = int n"
proof -
  have "int (unat (of_nat n :: 'w word)) = int n"
    by (simp only: unat_of_nat_small [OF w n])
  then show ?thesis by simp
qed

lemma insert_ages:
  fixes c :: "('t, 'w::len) circular_buffer"
  assumes w: "16 \<le> LENGTH('w)" and len: "length (data c) = 128"
    and hd: "unat (head c) < 128"
    and ins: "circular_buffer_insert x c = Inr c'"
  shows "length (data c') = 128" and "unat (head c') < 128"
    and "circular_buffer_subscript c' 0 = Inr x"
    and "j < 127 \<Longrightarrow>
      circular_buffer_subscript c' (of_nat (Suc j)) = circular_buffer_subscript c (of_nat j)"
proof -
  let ?h = "head c"
  from ins insert_ok [OF w len hd, of x]
  have c': "c' = c\<lparr>data := (data c)[unat ?h := x],
      head := (if unat ?h = 127 then 0 else ?h + 1)\<rparr>" by simp
  from hd have "?h < 128" by (simp only: head_less_128 [OF w])
  then have suc: "unat (?h + 1) = Suc (unat ?h)" by (rule unat_inc_less)
  show len': "length (data c') = 128" by (simp add: c' len)
  show hd': "unat (head c') < 128" using hd by (simp add: c' suc)
  have pos: "0 < length (data c)" "0 < length (data c')" using len len' by simp_all
  have hi: "uint ?h < 128"
    using hd unfolding unat_eq_nat_uint by arith
  have ui: "uint (?h + 1) = uint ?h + 1"
    using suc uint_ge_0 [of ?h] uint_ge_0 [of "?h + 1"] unfolding unat_eq_nat_uint by arith
  have h127: "unat ?h = 127 \<longleftrightarrow> uint ?h = 127"
    using uint_ge_0 [of ?h] unfolding unat_eq_nat_uint by arith
  have uh': "uint (head c') = (uint ?h + 1) mod 128"
    using hi by (simp add: c' h127 ui)
  have s0: "uint (slot c' 0) = uint ?h"
    using hi by (simp add: slot_uint [OF w len'] uh' mod_diff_left_eq)
  then have "slot c' 0 = ?h" by (simp only: word_uint_eq_iff)
  then have "unat (slot c' 0) = unat ?h" by (simp only:)
  then show "circular_buffer_subscript c' 0 = Inr x"
    using hd by (simp add: subscript_total [OF pos(2)]) (simp add: c' len)
  show "circular_buffer_subscript c' (of_nat (Suc j)) = circular_buffer_subscript c (of_nat j)"
    if j: "j < 127"
  proof -
    have uj: "uint (of_nat j :: 'w word) = int j" "uint (of_nat (Suc j) :: 'w word) = int j + 1"
      using j uint_small [OF w, of j] uint_small [OF w, of "Suc j"] by simp_all
    have "uint (slot c' (of_nat (Suc j)))
        = (uint (head c') - uint (of_nat (Suc j) :: 'w word) - 1) mod 128"
      by (rule slot_uint [OF w len'])
    also have "\<dots> = ((uint ?h + 1) mod 128 - (int j + 1) - 1) mod 128"
      by (simp only: uh' uj)
    also have "\<dots> = ((uint ?h + 1) mod 128 - (int j + 2)) mod 128"
      by (simp add: algebra_simps)
    also have "\<dots> = (uint ?h + 1 - (int j + 2)) mod 128" by (rule mod_diff_left_eq)
    also have "\<dots> = (uint ?h - int j - 1) mod 128" by (simp add: algebra_simps)
    finally have a: "uint (slot c' (of_nat (Suc j))) = (uint ?h - int j - 1) mod 128" .
    have "uint (slot c (of_nat j)) = (uint ?h - uint (of_nat j :: 'w word) - 1) mod 128"
      by (rule slot_uint [OF w len])
    then have b: "uint (slot c (of_nat j)) = (uint ?h - int j - 1) mod 128"
      by (simp only: uj)
    from a b have "uint (slot c' (of_nat (Suc j))) = uint (slot c (of_nat j))" by (simp only:)
    then have same: "slot c' (of_nat (Suc j)) = slot c (of_nat j)"
      by (simp only: word_uint_eq_iff)
    have "(uint ?h - int j - 1) mod 128 \<noteq> uint ?h"
    proof
      assume "(uint ?h - int j - 1) mod 128 = uint ?h"
      also have "uint ?h = uint ?h mod 128" using hi by simp
      finally have "(128::int) dvd (uint ?h - int j - 1) - uint ?h"
        by (simp only: mod_eq_dvd_iff)
      then have "(128::int) dvd - (int j + 1)" by simp
      then have "(128::int) dvd int j + 1" by (simp only: dvd_minus_iff)
      then have "(128::int) \<le> int j + 1" by (rule zdvd_imp_le) simp
      with j show False by simp
    qed
    with b have "uint (slot c (of_nat j)) \<noteq> uint ?h" by simp
    then have ne: "unat (slot c (of_nat j)) \<noteq> unat ?h"
      by (metis word_unat_eq_iff)
    have l: "circular_buffer_subscript c' (of_nat (Suc j))
        = Inr (data c' ! unat (slot c' (of_nat (Suc j))))"
      by (rule subscript_total [OF pos(2)])
    have r: "circular_buffer_subscript c (of_nat j) = Inr (data c ! unat (slot c (of_nat j)))"
      by (rule subscript_total [OF pos(1)])
    have d: "data c' ! unat (slot c (of_nat j)) = data c ! unat (slot c (of_nat j))"
      using ne by (simp add: c')
    show ?thesis by (simp only: l r same d)
  qed
qed

lemma insert_all_snoc:
  "insert_all (xs @ [x]) c =
    (case insert_all xs c of Inl e \<Rightarrow> Inl e | Inr c' \<Rightarrow> circular_buffer_insert x c')"
  by (induction xs arbitrary: c) (auto split: sum.splits)

lemma ages_after_inserts:
  fixes c :: "('t::zero, 'w::len) circular_buffer"
  assumes w: "16 \<le> LENGTH('w)" and len: "length (data c) = 128"
    and hd: "unat (head c) < 128" and zero: "data c = replicate 128 0"
  shows "\<exists>c'. insert_all xs c = Inr c' \<and> length (data c') = 128 \<and> unat (head c') < 128 \<and>
    (\<forall>i<128. circular_buffer_subscript c' (of_nat i)
        = Inr (if i < length xs then rev xs ! i else 0))"
proof (induction xs rule: rev_induct)
  case Nil
  have "circular_buffer_subscript c (of_nat i) = Inr 0" for i
  proof -
    have "unat (slot c (of_nat i)) < 128" using slot_in_bounds [of c "of_nat i"] len by simp
    then show ?thesis using len by (simp add: subscript_total zero)
  qed
  then show ?case using len hd by simp
next
  case (snoc x xs)
  then obtain c1 where c1: "insert_all xs c = Inr c1" "length (data c1) = 128"
      "unat (head c1) < 128"
    and ages: "\<forall>i<128. circular_buffer_subscript c1 (of_nat i)
        = Inr (if i < length xs then rev xs ! i else 0)"
    by blast
  obtain c2 where c2: "circular_buffer_insert x c1 = Inr c2"
    using insert_ok [OF w c1(2) c1(3)] by blast
  note ia = insert_ages [OF w c1(2) c1(3) c2]
  have "circular_buffer_subscript c2 (of_nat i)
      = Inr (if i < length (xs @ [x]) then rev (xs @ [x]) ! i else 0)" if i: "i < 128" for i
  proof (cases i)
    case 0
    then show ?thesis using ia(3) by simp
  next
    case (Suc j)
    with i have j: "j < 127" "j < 128" by simp_all
    have "circular_buffer_subscript c2 (of_nat (Suc j)) = circular_buffer_subscript c1 (of_nat j)"
      using j(1) by (rule ia(4))
    also have "\<dots> = Inr (if j < length xs then rev xs ! j else 0)"
      using ages j(2) by blast
    finally show ?thesis by (simp only: Suc) simp
  qed
  then show ?case
    using c1(1) c2 ia(1) ia(2) by (simp add: insert_all_snoc)
qed

lemma sample_unit: "16 \<le> LENGTH('w::len) \<Longrightarrow> LENGTH('w) \<le> 32 \<Longrightarrow>
   unat s \<le> 65535 \<Longrightarrow> unat (add_sample (0::'w word) s) = unat s"
proof -
  assume w: "16 \<le> LENGTH('w)" and w32: "LENGTH('w) \<le> 32" and s: "unat s \<le> 65535"
  from width16 [OF w] s have "unat s < 2 ^ LENGTH('w)" by linarith
  then show ?thesis by (simp add: unat_add_sample [OF w32])
qed

lemma take_bit_timing:
  "16 \<le> LENGTH('w::len) \<Longrightarrow> take_bit LENGTH('w) (1000::ulong) = 1000"
  using ucast_timing [where 'w = 'w] by simp

lemma sp_less_nat:
  fixes sp :: "'w::len word"
  assumes "sp < clap_sequence_size - 1"
  shows "unat sp < 2"
proof -
  from assms have "unat sp < unat (2 :: 'w word)"
    by (simp add: clap_sequence_size_def word_less_nat_alt)
  also have "\<dots> \<le> 2" by (simp add: unat_numeral)
  finally show ?thesis .
qed

lemma unat_bounds:
  assumes w: "16 \<le> LENGTH('w::len)"
  shows "unat ((1000::'w word) - max_clap_deviation) = 800"
    and "unat ((1000::'w word) + max_clap_deviation) = 1200"
proof -
  have "(1000::'w word) - max_clap_deviation = 800" by (simp add: max_clap_deviation_def)
  then show "unat ((1000::'w word) - max_clap_deviation) = 800" by (simp only: unat_800 [OF w])
  have "(1000::'w word) + max_clap_deviation = 1200" by (simp add: max_clap_deviation_def)
  then show "unat ((1000::'w word) + max_clap_deviation) = 1200" by (simp only: unat_1200 [OF w])
qed

lemma step_cases:
  fixes c :: "(ulong, 'w::len) circular_buffer"
  assumes w: "16 \<le> LENGTH('w)" and len: "length (data c) = 128"
    and sp: "sp < clap_sequence_size - 1" and bp: "\<not> 15 < bp"
    and sample: "circular_buffer_subscript c bp = Inr sample"
    and sum: "gap_sum = add_sample cd sample"
    and tgt: "target = clap_sequence_timings ! unat sp"
  shows "gap_sum = target - max_clap_deviation \<or> gap_sum = target + max_clap_deviation \<Longrightarrow>
      detect_clap_sequence_loop c sp bp cs cd =
        (if sp = 0 then Inr (True, circular_buffer_clear 0 c)
         else detect_clap_sequence_loop c (sp - 1) (bp + 1) cs 0)"
    and "gap_sum < target - max_clap_deviation \<Longrightarrow>
      detect_clap_sequence_loop c sp bp cs cd
        = detect_clap_sequence_loop c sp (bp + 1) cs gap_sum"
    and "target + max_clap_deviation < gap_sum \<Longrightarrow>
      detect_clap_sequence_loop c sp bp cs cd = Inr (False, c)"
proof -
  have pos: "0 < length (data c)" using len by simp
  have spn: "unat sp < 2" using sp by (rule sp_less_nat)
  have bpn: "unat bp \<le> 15" using bp by (rule unat_le_15)
  have t: "target = 1000" using tgt spn by (simp add: timing_nth)
  have s: "data c ! unat (slot c bp) = sample"
    using sample by (simp add: subscript_total [OF pos])
  note step = detect_step [OF w pos spn bpn, of cs cd, unfolded s Let_def, folded sum]
  note low = lower_bound_nat [OF w] and up = upper_bound_nat [OF w]
  show "detect_clap_sequence_loop c sp bp cs cd =
        (if sp = 0 then Inr (True, circular_buffer_clear 0 c)
         else detect_clap_sequence_loop c (sp - 1) (bp + 1) cs 0)"
    if "gap_sum = target - max_clap_deviation \<or> gap_sum = target + max_clap_deviation"
  proof -
    from that have "unat gap_sum = 800 \<or> unat gap_sum = 1200"
      by (auto simp only: t unat_bounds [OF w])
    then show ?thesis by (auto simp: step)
  qed
  show "detect_clap_sequence_loop c sp bp cs cd
        = detect_clap_sequence_loop c sp (bp + 1) cs gap_sum"
    if "gap_sum < target - max_clap_deviation"
    using that by (simp add: step t low)
  show "detect_clap_sequence_loop c sp bp cs cd = Inr (False, c)"
    if "target + max_clap_deviation < gap_sum"
    using that by (simp add: step t up)
qed

lemma ucast_small:
  assumes w: "16 \<le> LENGTH('w::len)" and n: "n < 65536"
  shows "unat (ucast (of_nat n :: 'w word) :: ulong) = n"
proof -
  have "unat (ucast (of_nat n :: 'w word) :: ulong) = take_bit 32 (unat (of_nat n :: 'w word))"
    by (simp only: unsigned_ucast_eq) simp
  also have "\<dots> = take_bit 32 n" by (simp only: unat_of_nat_small [OF w n])
  also have "\<dots> = n" using n by (simp add: take_bit_nat_eq_self)
  finally show ?thesis .
qed

lemma boundary_samples:
  assumes w: "16 \<le> LENGTH('w::len)" and w32: "LENGTH('w) \<le> 32"
    and a: "a = (1000::'w word) - max_clap_deviation \<or> a = 1000 + max_clap_deviation"
  shows "unat (add_sample (0::'w word) (ucast a)) = 800 \<or>
    unat (add_sample (0::'w word) (ucast a)) = 1200"
proof -
  have lo: "(1000::'w word) - max_clap_deviation = 800"
    and hi: "(1000::'w word) + max_clap_deviation = 1200"
    by (simp_all add: max_clap_deviation_def)
  have u800: "unat (ucast (800::'w word) :: ulong) = 800"
    using ucast_small [OF w, of 800] by simp
  have u1200: "unat (ucast (1200::'w word) :: ulong) = 1200"
    using ucast_small [OF w, of 1200] by simp
  have "unat (add_sample (0::'w word) (ucast (800::'w word))) = unat (ucast (800::'w word) :: ulong)"
    by (rule sample_unit [OF w w32]) (use u800 in linarith)
  then have r800: "unat (add_sample (0::'w word) (ucast (800::'w word))) = 800"
    by (simp only: u800)
  have "unat (add_sample (0::'w word) (ucast (1200::'w word))) = unat (ucast (1200::'w word) :: ulong)"
    by (rule sample_unit [OF w w32]) (use u1200 in linarith)
  then have r1200: "unat (add_sample (0::'w word) (ucast (1200::'w word))) = 1200"
    by (simp only: u1200)
  from a show ?thesis
  proof
    assume "a = 1000 - max_clap_deviation"
    then have "a = 800" by (simp only: lo)
    then show ?thesis using r800 by (simp only:) simp
  next
    assume "a = 1000 + max_clap_deviation"
    then have "a = 1200" by (simp only: hi)
    then show ?thesis using r1200 by (simp only:) simp
  qed
qed

lemma wrapped_sample:
  assumes w: "16 \<le> LENGTH('w::len)" and w32: "LENGTH('w) < 32"
  shows "unat (1000 + 2 ^ LENGTH('w) :: ulong) = 1000 + 2 ^ LENGTH('w)"
    and "unat (add_sample (0::'w word) (1000 + 2 ^ LENGTH('w))) = 1000"
proof -
  have "LENGTH('w) \<le> 31" using w32 by simp
  then have "(2::nat) ^ LENGTH('w) \<le> 2 ^ 31" by (rule power_increasing) simp
  then have le: "(2::nat) ^ LENGTH('w) \<le> 2147483648" by simp
  have "(2 ^ LENGTH('w) :: ulong) = of_nat (2 ^ LENGTH('w))" by simp
  then have "unat (2 ^ LENGTH('w) :: ulong) = 2 ^ LENGTH('w) mod 2 ^ LENGTH(32)"
    by (simp only: unat_of_nat)
  then have p: "unat (2 ^ LENGTH('w) :: ulong) = 2 ^ LENGTH('w)"
    using le by simp
  have "unat (1000 :: ulong) + unat (2 ^ LENGTH('w) :: ulong) < 2 ^ LENGTH(32)"
    using le by (simp add: p)
  then have "unat (1000 + 2 ^ LENGTH('w) :: ulong) = unat (1000 :: ulong) + unat (2 ^ LENGTH('w) :: ulong)"
    by (simp only: unat_add_lem)
  then show u: "unat (1000 + 2 ^ LENGTH('w) :: ulong) = 1000 + 2 ^ LENGTH('w)"
    by (simp add: p)
  have "(1000::nat) < 2 ^ LENGTH('w)" using width16 [OF w] by linarith
  then show "unat (add_sample (0::'w word) (1000 + 2 ^ LENGTH('w))) = 1000"
    using w32 by (simp add: unat_add_sample u)
qed

lemma print_loop_total:
  fixes c :: "(ulong, 'w::len) circular_buffer"
  shows "0 < length (data c) \<Longrightarrow> \<exists>out. print_loop c i = Inr out"
proof (induction c i rule: print_loop.induct)
  case (1 c i)
  show ?case
  proof (cases "i < 4")
    case True
    have sub: "circular_buffer_subscript c i = Inr (data c ! unat (slot c i))"
      using "1.prems" by (rule subscript_total)
    from "1.IH" [OF True sub "1.prems"] obtain rest where "print_loop c (i + 1) = Inr rest"
      by blast
    then show ?thesis
      by (simp only: print_loop.simps [of c i]) (use True sub in simp)
  next
    case False
    then show ?thesis by (simp only: print_loop.simps [of c i]) simp
  qed
qed

lemma on_sound_detected_ok:
  fixes s :: "'w::len sketch"
  assumes w: "16 \<le> LENGTH('w)" and len: "length (data (clap s)) = 128"
    and hd: "unat (head (clap s)) < 128"
  shows "\<exists>s' before. on_sound_detected inp s =
      Inr (s', before @ [DigitalWrite LED_PIN True, Delay 60, DigitalWrite LED_PIN False])
    \<and> last_clap_time s' = Some (millis_now inp)"
proof -
  let ?last = "case last_clap_time s of None \<Rightarrow> millis_first inp | Some t \<Rightarrow> t"
  obtain c1 where c1: "circular_buffer_insert (millis_now inp - ?last) (clap s) = Inr c1"
    using insert_ok [OF w len hd] by blast
  have len1: "length (data c1) = 128" by (rule insert_ages(1) [OF w len hd c1])
  then have pos: "0 < length (data c1)" by simp
  obtain printed where pr: "print_loop c1 0 = Inr printed"
    using print_loop_total [OF pos] by blast
  have "unat ((clap_sequence_size :: 'w word) - 2) < 2"
    by (simp add: clap_sequence_size_def)
  from loop_result [OF pos this, of 0 0 0]
  obtain d c2 where det: "detect_clap_sequence c1 (clap_sequence_size - 2) 0 0 = Inr (d, c2)"
    unfolding detect_clap_sequence_def by blast
  show ?thesis
    by (cases d) (simp_all add: on_sound_detected_def Let_def c1 pr det on_sequence_detected_def)
qed

lemma add_sample_zero:
  assumes "LENGTH('w::len) \<le> 32"
  shows "add_sample (cd :: 'w word) 0 = cd"
proof -
  have "unat (add_sample cd 0) = unat cd"
    using unsigned_less [of cd] by (simp add: unat_add_sample [OF assms])
  then show ?thesis by (simp only: word_unat_eq_iff)
qed

lemma loop_stalls:
  fixes c :: "(ulong, 'w::len) circular_buffer"
  assumes w: "16 \<le> LENGTH('w)" and w32: "LENGTH('w) \<le> 32"
    and len: "0 < length (data c)" and sp: "unat sp < 2"
    and z: "\<forall>p :: 'w word. k \<le> unat p \<and> unat p \<le> 15 \<longrightarrow> circular_buffer_subscript c p = Inr 0"
    and cd: "unat cd < 800"
  shows "k \<le> unat bp \<Longrightarrow> detect_clap_sequence_loop c sp bp cs cd = Inr (False, c)"
proof (induction "16 - unat bp" arbitrary: bp)
  case 0
  then have "15 < unat bp" by simp
  with w show ?case by (rule detect_beyond)
next
  case (Suc n)
  then have bp: "unat bp \<le> 15" by simp
  with Suc.prems z have "circular_buffer_subscript c bp = Inr 0" by blast
  then have s: "data c ! unat (slot c bp) = 0" by (simp add: subscript_total [OF len])
  have "bp < 16"
    using bp w by (simp add: word_less_nat_alt unat_of_nat_small [of 16, where 'w = 'w, simplified])
  then have suc: "unat (bp + 1) = Suc (unat bp)" by (rule unat_inc_less)
  with Suc have "n = 16 - unat (bp + 1)" by simp
  moreover have "k \<le> unat (bp + 1)" using Suc.prems suc by simp
  ultimately have "detect_clap_sequence_loop c sp (bp + 1) cs cd = Inr (False, c)"
    by (rule Suc.hyps)
  then show ?case
    using cd by (simp add: detect_step [OF w len sp bp] s add_sample_zero [OF w32])
qed

lemma substitution_rejected_without_wrap:
  fixes c :: "(ulong, 'w::len) circular_buffer"
  assumes w: "16 \<le> LENGTH('w)" and w32: "LENGTH('w) \<le> 32"
    and len: "length (data c) = 128"
    and fits: "unat v < 2 ^ LENGTH('w)"
    and outside: "unat v < 800 \<or> 1200 < unat v"
    and subst: "(circular_buffer_subscript c 0 = Inr v \<and> circular_buffer_subscript c 1 = Inr 1000)
      \<or> (circular_buffer_subscript c 0 = Inr 1000 \<and> circular_buffer_subscript c 1 = Inr v)"
    and older: "\<forall>p :: 'w word. 2 \<le> unat p \<and> unat p \<le> 15 \<longrightarrow>
      circular_buffer_subscript c p = Inr 0"
  shows "detect_clap_sequence c (clap_sequence_size - 2) 0 can_skip = Inr (False, c)"
proof -
  have pos: "0 < length (data c)" using len by simp
  have one: "unat (1::'w word) < 2" "unat (1::'w word) \<le> 15" "(1::'w word) \<noteq> 0" by simp_all
  have zero: "unat (0::'w word) < 2" "unat (0::'w word) \<le> 15" by simp_all
  have two: "unat (2::'w word) = 2" using unat_of_nat_small [OF w, of 2] by simp
  have v0: "unat (add_sample (0::'w word) v) = unat v"
    using fits by (simp add: unat_add_sample [OF w32])
  have c1000: "unat (add_sample (0::'w word) (1000::ulong)) = 1000"
    by (simp add: sample_unit [OF w w32])
  note stall = loop_stalls [OF w w32 pos zero(1) older, of _ 2 can_skip, unfolded two]
  have "detect_clap_sequence_loop c 1 0 can_skip 0 = Inr (False, c)"
    using subst
  proof
    assume a: "circular_buffer_subscript c 0 = Inr v \<and> circular_buffer_subscript c 1 = Inr 1000"
    then have d0: "data c ! unat (slot c 0) = v" and d1: "data c ! unat (slot c 1) = 1000"
      by (simp_all add: subscript_total [OF pos])
    from outside show ?thesis
    proof
      assume low: "unat v < 800"
      have "unat (add_sample (add_sample (0::'w word) v) 1000) = (unat v + 1000) mod 2 ^ LENGTH('w)"
        by (simp only: unat_add_sample [OF w32, of "add_sample 0 v"] v0) simp
      moreover have "unat v + 1000 < 2 ^ LENGTH('w)" using low width16 [OF w] by linarith
      ultimately have sum: "unat (add_sample (add_sample (0::'w word) v) 1000) = unat v + 1000"
        by simp
      have "detect_clap_sequence_loop c 1 0 can_skip 0
          = detect_clap_sequence_loop c 1 1 can_skip (add_sample 0 v)"
        by (subst detect_step [OF w pos one(1) zero(2)]) (simp add: d0 v0 low)
      also have "\<dots> = Inr (False, c)"
        by (subst detect_step [OF w pos one(1) one(2)])
          (simp add: d1 sum one(3) stall)
      finally show ?thesis .
    next
      assume "1200 < unat v"
      then show ?thesis
        by (subst detect_step [OF w pos one(1) zero(2)]) (simp add: d0 v0)
    qed
  next
    assume a: "circular_buffer_subscript c 0 = Inr 1000 \<and> circular_buffer_subscript c 1 = Inr v"
    then have d0: "data c ! unat (slot c 0) = 1000" and d1: "data c ! unat (slot c 1) = v"
      by (simp_all add: subscript_total [OF pos])
    have "detect_clap_sequence_loop c 1 0 can_skip 0
        = detect_clap_sequence_loop c 0 1 can_skip 0"
      by (subst detect_step [OF w pos one(1) zero(2)]) (simp add: d0 c1000)
    also have "\<dots> = Inr (False, c)"
      using outside
      by (subst detect_step [OF w pos zero(1) one(2)]) (auto simp: d1 v0 stall)
    finally show ?thesis .
  qed
  then show ?thesis by (simp add: detect_clap_sequence_def clap_sequence_size_def)
qed

text \<open>
  The scenarios of the specification on the 16 bit build, as runs of the whole sketch: three
  claps at 0, 1020 and 2050 ms move the servo once and leave the ring cleared; a third clap
  at 2500 ms moves nothing; a stray event at 1450 ms between the second and the third clap
  is absorbed.
\<close>

lemma scenario_three_claps:
  "servo_writes (run [sound_at 0, sound_at 1020, sound_at 2050]
      (fst (sketch_setup :: 16 sketch \<times> effect list))) = Some [150]"
  "ring_of_run (run [sound_at 0, sound_at 1020, sound_at 2050]
      (fst (sketch_setup :: 16 sketch \<times> effect list))) = Some [0, 0, 0, 0]"
  by code_simp+

lemma scenario_late_third_clap:
  "servo_writes (run [sound_at 0, sound_at 1020, sound_at 2500]
      (fst (sketch_setup :: 16 sketch \<times> effect list))) = Some []"
  "ring_of_run (run [sound_at 0, sound_at 1020, sound_at 2500]
      (fst (sketch_setup :: 16 sketch \<times> effect list))) = Some [0, 1020, 1480, 0]"
  by code_simp+

lemma scenario_noise_absorbed:
  "servo_writes (run [sound_at 0, sound_at 1020, sound_at 1450, sound_at 2050]
      (fst (sketch_setup :: 16 sketch \<times> effect list))) = Some [150]"
  by code_simp

text \<open>
  Two evaluations on the rings above.
\<close>

lemma ring_exact_hit: "detect_clap_sequence ring_exact 1 0 5 = Inr (True, ring_cleared)"
  by code_simp

lemma ring_cleared_miss: "detect_clap_sequence ring_cleared 1 0 3 = Inr (False, ring_cleared)"
  by code_simp

section \<open>The claims\<close>

text \<open>
  Claim C1 (exact match). When the samples at ages \<open>0 .. N - 2\<close> of the ring are the
  target intervals read from the newest to the oldest, the sample at age \<open>k\<close> being
  \<^verbatim>\<open>clap_sequence_timings[N - 2 - k]\<close> for \<open>N = clap_sequence_size\<close>, the call
  \<^verbatim>\<open>detect_clap_sequence(N - 2, 0, can_skip)\<close> returns true for every \<open>can_skip\<close>, and
  the ring it leaves holds 0 in each of its 128 slots.
\<close>

theorem exact_match_clears_ring:
  fixes c :: "(ulong, 'w::len) circular_buffer"
  assumes w: "16 \<le> LENGTH('w)" and w32: "LENGTH('w) \<le> 32"
    and len: "length (data c) = 128"
    and ages: "\<forall>k < unat (clap_sequence_size :: 'w word) - 1.
      circular_buffer_subscript c (of_nat k) =
        Inr (ucast ((clap_sequence_timings :: 'w word list)
          ! (unat (clap_sequence_size :: 'w word) - 2 - k)))"
  shows "detect_clap_sequence c (clap_sequence_size - 2) 0 can_skip
      = Inr (True, c\<lparr>data := replicate 128 0\<rparr>)"
proof -
  have n: "unat (clap_sequence_size :: 'w word) = 3"
    using unat_of_nat_small [OF w, of 3] by (simp add: clap_sequence_size_def)
  have pos: "0 < length (data c)" using len by simp
  from ages [rule_format, of 0] have "circular_buffer_subscript c (of_nat 0)
      = Inr (ucast ((clap_sequence_timings :: 'w word list) ! 1))"
    by (simp add: n)
  then have a0: "data c ! unat (slot c 0) = 1000"
    by (simp add: subscript_total [OF pos] timing_nth take_bit_timing [OF w])
  from ages [rule_format, of 1] have "circular_buffer_subscript c (of_nat 1)
      = Inr (ucast ((clap_sequence_timings :: 'w word list) ! 0))"
    by (simp add: n)
  then have a1: "data c ! unat (slot c 1) = 1000"
    by (simp add: subscript_total [OF pos] timing_nth take_bit_timing [OF w])
  have cd: "unat (add_sample (0::'w word) (1000::ulong)) = 1000"
    by (simp add: sample_unit [OF w w32])
  have one: "unat (1::'w word) < 2" "unat (1::'w word) \<le> 15" "(1::'w word) \<noteq> 0" by simp_all
  have zero: "unat (0::'w word) < 2" "unat (0::'w word) \<le> 15" by simp_all
  have "length (data c) < 2 ^ LENGTH('w)" using len width16 [OF w] by simp
  then have clr: "circular_buffer_clear 0 c = c\<lparr>data := replicate 128 0\<rparr>"
    by (simp add: clear_data len)
  have "detect_clap_sequence c 1 0 can_skip = detect_clap_sequence_loop c 0 1 can_skip 0"
    unfolding detect_clap_sequence_def
    by (subst detect_step [OF w pos one(1) zero(2)]) (simp add: a0 cd)
  also have "\<dots> = Inr (True, circular_buffer_clear 0 c)"
    by (subst detect_step [OF w pos zero(1) one(2)]) (simp add: a1 cd)
  finally show ?thesis by (simp add: clr clap_sequence_size_def)
qed

theorem exact_match_clears_ring_witness:
  "detect_clap_sequence ring_exact 1 0 5 = Inr (True, ring_exact\<lparr>data := replicate 128 0\<rparr>)"
proof -
  have n: "unat (clap_sequence_size :: 16 word) = 3"
    by (simp add: clap_sequence_size_def)
  have s0: "circular_buffer_subscript ring_exact 0 = Inr 1000"
    by (simp add: ring_exact_def circular_buffer_subscript_def slot_def buffer_size_def)
  have s1: "circular_buffer_subscript ring_exact 1 = Inr 1000"
    by (simp add: ring_exact_def circular_buffer_subscript_def slot_def buffer_size_def)
  have "\<forall>k < unat (clap_sequence_size :: 16 word) - 1.
      circular_buffer_subscript ring_exact (of_nat k) =
        Inr (ucast ((clap_sequence_timings :: 16 word list)
          ! (unat (clap_sequence_size :: 16 word) - 2 - k)))"
  proof (intro allI impI)
    fix k :: nat
    assume "k < unat (clap_sequence_size :: 16 word) - 1"
    then have "k = 0 \<or> k = 1" by (simp add: n) arith
    then show "circular_buffer_subscript ring_exact (of_nat k) =
        Inr (ucast ((clap_sequence_timings :: 16 word list)
          ! (unat (clap_sequence_size :: 16 word) - 2 - k)))"
      by (auto simp: n s0 s1 clap_sequence_timings_def)
  qed
  with exact_match_clears_ring [of ring_exact 5]
  show ?thesis by (simp add: ring_exact_def clap_sequence_size_def)
qed

text \<open>
  Claim C2 (noise absorption), at an input where the sketch does not absorb the noise.
  Claps at 0, 1000 and 2100 ms with stray events at 1250 and 1650 ms leave the samples
  450, 400, 250 and 1000, newest first. Each stray interval is below the lower bound 800,
  and the two gap sums are 450 + 400 + 250 = 1100 and 1000, both within
  1000 \<plusminus> 200, yet the matcher returns false: it closes the newest gap at
  450 + 400 = 850, as soon as the sum enters the band, and the next gap then sums to
  250 + 1000 = 1250. No pass of the run moves the servo, on the 16 bit build and on the
  32 bit build.
\<close>

theorem greedy_gap_misses_noise:
  "circular_buffer_subscript ring_greedy 0 = Inr 450
   \<and> circular_buffer_subscript ring_greedy 1 = Inr 400
   \<and> circular_buffer_subscript ring_greedy 2 = Inr 250
   \<and> circular_buffer_subscript ring_greedy 3 = Inr 1000
   \<and> detect_clap_sequence ring_greedy (clap_sequence_size - 2) 0 0 = Inr (False, ring_greedy)
   \<and> servo_writes (run [sound_at 0, sound_at 1000, sound_at 1250, sound_at 1650, sound_at 2100]
        (fst (sketch_setup :: 16 sketch \<times> effect list))) = Some []
   \<and> servo_writes (run [sound_at 0, sound_at 1000, sound_at 1250, sound_at 1650, sound_at 2100]
        (fst (sketch_setup :: 32 sketch \<times> effect list))) = Some []"
  by code_simp

text \<open>
  Claim C3 (substitution outside the band), at an input where the 16 bit build accepts
  the substituted value. The ring holds 1000 at ages 0 and 1 and 0 elsewhere, and the
  sample at age 0 is replaced by 66536 = 1000 + 2^16, which is outside the band from 800 to
  1200. Line 96 stores the sum in an \<^verbatim>\<open>unsigned int\<close>, that is 1000, and the matcher
  returns true; in the run, claps at 0, 1000 and 67536 ms move the servo.
\<close>

theorem substitution_wraps_into_band:
  "circular_buffer_subscript ring_truncated 0 = Inr 66536
   \<and> circular_buffer_subscript ring_truncated 1 = Inr 1000
   \<and> \<not> (ucast ((clap_sequence_timings :: 16 word list) ! 1 - max_clap_deviation) \<le> (66536 :: ulong)
        \<and> (66536 :: ulong) \<le> ucast ((clap_sequence_timings :: 16 word list) ! 1 + max_clap_deviation))
   \<and> detect_clap_sequence ring_truncated (clap_sequence_size - 2) 0 0
        = Inr (True, ring_truncated\<lparr>data := replicate 128 0\<rparr>)
   \<and> servo_writes (run [sound_at 0, sound_at 1000, sound_at 67536]
        (fst (sketch_setup :: 16 sketch \<times> effect list))) = Some [150]"
proof (intro conjI)
  show "circular_buffer_subscript ring_truncated 0 = Inr 66536" by code_simp
  show "circular_buffer_subscript ring_truncated 1 = Inr 1000" by code_simp
  show "\<not> (ucast ((clap_sequence_timings :: 16 word list) ! 1 - max_clap_deviation) \<le> (66536 :: ulong)
        \<and> (66536 :: ulong) \<le> ucast ((clap_sequence_timings :: 16 word list) ! 1 + max_clap_deviation))"
    by (simp add: timing_nth max_clap_deviation_def)
  show "detect_clap_sequence ring_truncated (clap_sequence_size - 2) 0 0
        = Inr (True, ring_truncated\<lparr>data := replicate 128 0\<rparr>)"
    by code_simp
  show "servo_writes (run [sound_at 0, sound_at 1000, sound_at 67536]
        (fst (sketch_setup :: 16 sketch \<times> effect list))) = Some [150]"
    by code_simp
qed

text \<open>
  Claim C4 (the band is closed). In an iteration of the loop, where \<open>gap_sum\<close> is
  \<^verbatim>\<open>current_delay\<close> after line 96 and \<open>target\<close> is
  \<^verbatim>\<open>clap_sequence_timings[sequence_position]\<close>: a sum equal to
  \<open>target - max_clap_deviation\<close> or to \<open>target + max_clap_deviation\<close> satisfies the gap
  (a match when \<open>sequence_position = 0\<close>, the next gap otherwise); a sum below the lower
  bound absorbs the next sample; a sum above the upper bound returns false. A ring whose
  two newest samples each lie on a bound of their gap matches.
\<close>

theorem band_is_closed:
  fixes c :: "(ulong, 'w::len) circular_buffer" and a b :: "'w word"
  assumes w: "16 \<le> LENGTH('w)" and w32: "LENGTH('w) \<le> 32"
    and len: "length (data c) = 128"
    and sp: "sequence_position < clap_sequence_size - 1"
    and bp: "\<not> 15 < buffer_position"
    and sample: "circular_buffer_subscript c buffer_position = Inr sample"
    and sum: "gap_sum = add_sample current_delay sample"
    and tgt: "target = clap_sequence_timings ! unat sequence_position"
  shows "(gap_sum = target - max_clap_deviation \<or> gap_sum = target + max_clap_deviation \<longrightarrow>
      detect_clap_sequence_loop c sequence_position buffer_position can_skip current_delay =
        (if sequence_position = 0 then Inr (True, circular_buffer_clear 0 c)
         else detect_clap_sequence_loop c (sequence_position - 1) (buffer_position + 1)
           can_skip 0))
    \<and> (gap_sum < target - max_clap_deviation \<longrightarrow>
      detect_clap_sequence_loop c sequence_position buffer_position can_skip current_delay
        = detect_clap_sequence_loop c sequence_position (buffer_position + 1) can_skip gap_sum)
    \<and> (target + max_clap_deviation < gap_sum \<longrightarrow>
      detect_clap_sequence_loop c sequence_position buffer_position can_skip current_delay
        = Inr (False, c))
    \<and> ((a = clap_sequence_timings ! 1 - max_clap_deviation \<or>
       a = clap_sequence_timings ! 1 + max_clap_deviation) \<and>
      (b = clap_sequence_timings ! 0 - max_clap_deviation \<or>
       b = clap_sequence_timings ! 0 + max_clap_deviation) \<and>
      circular_buffer_subscript c 0 = Inr (ucast a) \<and>
      circular_buffer_subscript c 1 = Inr (ucast b) \<longrightarrow>
      detect_clap_sequence c (clap_sequence_size - 2) 0 can_skip
        = Inr (True, circular_buffer_clear 0 c))"
proof -
  note parts = step_cases [OF w len sp bp sample sum tgt, of can_skip]
  have pos: "0 < length (data c)" using len by simp
  have full: "detect_clap_sequence c (clap_sequence_size - 2) 0 can_skip
        = Inr (True, circular_buffer_clear 0 c)"
    if a: "a = clap_sequence_timings ! 1 - max_clap_deviation \<or>
       a = clap_sequence_timings ! 1 + max_clap_deviation"
    and b: "b = clap_sequence_timings ! 0 - max_clap_deviation \<or>
       b = clap_sequence_timings ! 0 + max_clap_deviation"
    and s0: "circular_buffer_subscript c 0 = Inr (ucast a)"
    and s1: "circular_buffer_subscript c 1 = Inr (ucast b)"
  proof -
    from a have a': "a = 1000 - max_clap_deviation \<or> a = 1000 + max_clap_deviation"
      by (simp add: timing_nth)
    from b have b': "b = 1000 - max_clap_deviation \<or> b = 1000 + max_clap_deviation"
      by (simp add: timing_nth)
    have d0: "data c ! unat (slot c 0) = ucast a" and d1: "data c ! unat (slot c 1) = ucast b"
      using s0 s1 by (simp_all add: subscript_total [OF pos])
    have one: "unat (1::'w word) < 2" "unat (1::'w word) \<le> 15" "(1::'w word) \<noteq> 0"
      by simp_all
    have zero: "unat (0::'w word) < 2" "unat (0::'w word) \<le> 15" by simp_all
    from boundary_samples [OF w w32 a']
    have ga: "\<not> unat (add_sample (0::'w word) (ucast a)) < 800"
      "\<not> 1200 < unat (add_sample (0::'w word) (ucast a))" by arith+
    from boundary_samples [OF w w32 b']
    have gb: "\<not> unat (add_sample (0::'w word) (ucast b)) < 800"
      "\<not> 1200 < unat (add_sample (0::'w word) (ucast b))" by arith+
    have "detect_clap_sequence c 1 0 can_skip = detect_clap_sequence_loop c 0 1 can_skip 0"
      unfolding detect_clap_sequence_def
      by (subst detect_step [OF w pos one(1) zero(2)]) (simp add: d0 Let_def ga)
    also have "\<dots> = Inr (True, circular_buffer_clear 0 c)"
      by (subst detect_step [OF w pos zero(1) one(2)]) (simp add: d1 Let_def gb)
    finally show ?thesis by (simp add: clap_sequence_size_def)
  qed
  have all: "(a = clap_sequence_timings ! 1 - max_clap_deviation \<or>
       a = clap_sequence_timings ! 1 + max_clap_deviation) \<and>
      (b = clap_sequence_timings ! 0 - max_clap_deviation \<or>
       b = clap_sequence_timings ! 0 + max_clap_deviation) \<and>
      circular_buffer_subscript c 0 = Inr (ucast a) \<and>
      circular_buffer_subscript c 1 = Inr (ucast b) \<longrightarrow>
      detect_clap_sequence c (clap_sequence_size - 2) 0 can_skip
        = Inr (True, circular_buffer_clear 0 c)"
    using full by (intro impI) (elim conjE)
  show ?thesis
  proof (intro conjI)
    show "gap_sum = target - max_clap_deviation \<or> gap_sum = target + max_clap_deviation \<longrightarrow>
      detect_clap_sequence_loop c sequence_position buffer_position can_skip current_delay =
        (if sequence_position = 0 then Inr (True, circular_buffer_clear 0 c)
         else detect_clap_sequence_loop c (sequence_position - 1) (buffer_position + 1)
           can_skip 0)"
      by (rule impI) (rule parts(1))
    show "gap_sum < target - max_clap_deviation \<longrightarrow>
      detect_clap_sequence_loop c sequence_position buffer_position can_skip current_delay
        = detect_clap_sequence_loop c sequence_position (buffer_position + 1) can_skip gap_sum"
      by (rule impI) (rule parts(2))
    show "target + max_clap_deviation < gap_sum \<longrightarrow>
      detect_clap_sequence_loop c sequence_position buffer_position can_skip current_delay
        = Inr (False, c)"
      by (rule impI) (rule parts(3))
  qed (rule all)
qed

theorem band_is_closed_witness:
  "detect_clap_sequence_loop ring_boundary 1 0 0 0 = detect_clap_sequence_loop ring_boundary 0 1 0 0
   \<and> detect_clap_sequence ring_boundary 1 0 0 = Inr (True, circular_buffer_clear 0 ring_boundary)"
proof -
  have h1: "length (data ring_boundary) = 128" by (simp add: ring_boundary_def)
  have h2: "(1::16 word) < clap_sequence_size - 1" by (simp add: clap_sequence_size_def)
  have h3: "\<not> 15 < (0::16 word)" by simp
  have h4: "circular_buffer_subscript ring_boundary 0 = Inr 800" by code_simp
  have h5: "(800::16 word) = add_sample 0 800" by code_simp
  have h6: "(1000::16 word) = clap_sequence_timings ! unat (1::16 word)"
    by (simp add: clap_sequence_timings_def)
  have h7: "circular_buffer_subscript ring_boundary 1 = Inr 1200" by code_simp
  have ab: "(800::16 word) = clap_sequence_timings ! 1 - max_clap_deviation"
    "(1200::16 word) = clap_sequence_timings ! 0 + max_clap_deviation"
    "(ucast (800::16 word) :: ulong) = 800" "(ucast (1200::16 word) :: ulong) = 1200"
    by (simp_all add: timing_nth max_clap_deviation_def)
  have g: "(800::16 word) = 1000 - max_clap_deviation" by (simp add: max_clap_deviation_def)
  have cs: "(clap_sequence_size :: 16 word) - 2 = 1" by (simp add: clap_sequence_size_def)
  from band_is_closed [where c = ring_boundary and a = 800 and b = 1200 and can_skip = 0,
      OF _ _ h1 h2 h3 h4 h5 h6]
  show ?thesis using h4 h7 ab g cs by simp
qed

text \<open>
  Claim C5 (reset prevents re-matching). Whenever \<^verbatim>\<open>detect_clap_sequence\<close> returns
  true, each slot of the ring it leaves is 0, and a second call
  \<^verbatim>\<open>detect_clap_sequence(N - 2, 0, can_skip')\<close> on that ring, with nothing inserted in
  between, returns false and leaves the ring as it is.
\<close>

theorem match_resets_ring:
  fixes c :: "(ulong, 'w::len) circular_buffer"
  assumes w: "16 \<le> LENGTH('w)" and w32: "LENGTH('w) \<le> 32"
    and len: "length (data c) = 128"
    and hit: "detect_clap_sequence c sequence_position buffer_position can_skip = Inr (True, c')"
  shows "data c' = replicate 128 0 \<and>
    detect_clap_sequence c' (clap_sequence_size - 2) 0 can_skip' = Inr (False, c')"
proof -
  have "length (data c) < 2 ^ LENGTH('w)" using len width16 [OF w] by simp
  then have clr: "circular_buffer_clear 0 c = c\<lparr>data := replicate 128 0\<rparr>"
    by (simp add: clear_data len)
  from loop_ring [OF hit [unfolded detect_clap_sequence_def]]
  have c': "c' = c\<lparr>data := replicate 128 0\<rparr>"
    by (simp add: clr)
  have "detect_clap_sequence_loop c' 1 0 can_skip' 0 = Inr (False, c')"
    by (rule loop_zero [OF w w32]) (simp_all add: c')
  then show ?thesis
    by (simp add: c' detect_clap_sequence_def clap_sequence_size_def)
qed

theorem match_resets_ring_witness:
  "data ring_cleared = replicate 128 0 \<and>
   detect_clap_sequence ring_cleared (clap_sequence_size - 2) 0 9 = Inr (False, ring_cleared)"
proof -
  have "length (data ring_exact) = 128" by (simp add: ring_exact_def)
  with match_resets_ring [of ring_exact 1 0 5 ring_cleared 9] ring_exact_hit
  show ?thesis by simp
qed

text \<open>
  Claim C6, amended (admission rule). In every pass of \<^verbatim>\<open>loop\<close> on a ring with 128
  slots and its head cursor below 128, the pass returns, and the event is admitted if and
  only if the pulse duration is below \<^verbatim>\<open>ULTRASONIC_TIMEOUT\<close> and the power-rail sample
  is below \<^verbatim>\<open>BROWNOUT\<close>. A pulse duration at or above \<^verbatim>\<open>ULTRASONIC_TIMEOUT\<close> is
  never admitted, whatever the power-rail sample, and leaves the state as it was.
\<close>

theorem admission_rule:
  fixes s :: "'w::len sketch"
  assumes w: "16 \<le> LENGTH('w)" and len: "length (data (clap s)) = 128"
    and hd: "unat (head (clap s)) < 128"
  shows "(\<exists>s' out. loop inp s = Inr (s', out))
    \<and> (admitted (loop inp s) \<longleftrightarrow>
        pulse_duration inp < ULTRASONIC_TIMEOUT \<and> brownout_reading inp < BROWNOUT)
    \<and> (ULTRASONIC_TIMEOUT \<le> pulse_duration inp \<longrightarrow>
        \<not> admitted (loop inp s) \<and> (\<exists>out. loop inp s = Inr (s, out)))"
proof -
  have quiet: "DigitalWrite LED_PIN True \<notin> set (trigger @
      [Serial_println_ulong (pulse_duration inp), Serial_println_int (detect_reading inp)])"
    by (simp add: trigger_def LED_PIN_def US_TRIG_PIN_def)
  show ?thesis
  proof (cases "pulse_duration inp < ULTRASONIC_TIMEOUT \<and> brownout_reading inp < BROWNOUT")
    case True
    from on_sound_detected_ok [OF w len hd, of inp]
    obtain s' before where "on_sound_detected inp s =
      Inr (s', before @ [DigitalWrite LED_PIN True, Delay 60, DigitalWrite LED_PIN False])"
      by blast
    with True show ?thesis by (auto simp: loop_def admitted_def Let_def)
  next
    case False
    then have "loop inp s = Inr (s, trigger @
      [Serial_println_ulong (pulse_duration inp), Serial_println_int (detect_reading inp)])"
      by (auto simp: loop_def Let_def)
    with False quiet show ?thesis by (auto simp: admitted_def)
  qed
qed

theorem admission_rule_witness:
  "admitted (loop (sound_at 0) (fst (sketch_setup :: 16 sketch \<times> effect list)))
    \<and> \<not> admitted (loop ((sound_at 0)\<lparr>pulse_duration := 133000\<rparr>)
        (fst (sketch_setup :: 16 sketch \<times> effect list)))"
proof -
  let ?s = "fst (sketch_setup :: 16 sketch \<times> effect list)"
  have h: "length (data (clap ?s)) = 128" "unat (head (clap ?s)) < 128"
    by (simp_all add: sketch_setup_def on_sequence_detected_def clap_init_def
        circular_buffer_init_def Let_def)
  have a: "pulse_duration (sound_at 0) < ULTRASONIC_TIMEOUT"
    "brownout_reading (sound_at 0) < BROWNOUT"
    "ULTRASONIC_TIMEOUT \<le> pulse_duration ((sound_at 0)\<lparr>pulse_duration := 133000\<rparr>)"
    by (simp_all add: sound_at_def ULTRASONIC_TIMEOUT_def BROWNOUT_def)
  from admission_rule [of ?s "sound_at 0", OF _ h]
    admission_rule [of ?s "(sound_at 0)\<lparr>pulse_duration := 133000\<rparr>", OF _ h] a
  show ?thesis by simp
qed

text \<open>
  Claim C6 as stated asks for a power-rail sample above the brownout threshold. The pass
  \<open>sound_at 0\<close> is admitted with a sample of 500, which is not above 720.
\<close>

theorem admission_above_brownout_counterexample:
  "admitted (loop (sound_at 0) (fst (sketch_setup :: 16 sketch \<times> effect list)))
    \<and> \<not> BROWNOUT < brownout_reading (sound_at 0)"
  by code_simp

text \<open>
  Claim C7 (termination by the lookahead bound). The matcher is a total function: its
  termination is proved above from the pair (\<open>sequence_position\<close>,
  \<open>16 - buffer_position\<close>), which decreases lexicographically at both recursive calls.
  On the 128 slot ring and for every \<open>sequence_position < clap_sequence_size - 1\<close> it
  returns a truth value, never a fault, and it returns false at once, leaving the ring
  unchanged, when \<open>buffer_position\<close> exceeds the lookahead limit 15.
\<close>

theorem matcher_total:
  fixes c :: "(ulong, 'w::len) circular_buffer"
  assumes len: "length (data c) = 128"
    and sp: "sequence_position < clap_sequence_size - 1"
  shows "(\<exists>b c'. detect_clap_sequence c sequence_position buffer_position can_skip = Inr (b, c'))
    \<and> (15 < buffer_position \<longrightarrow>
        detect_clap_sequence c sequence_position buffer_position can_skip = Inr (False, c))"
proof -
  from sp have "unat sequence_position < unat (2 :: 'w word)"
    by (simp add: clap_sequence_size_def word_less_nat_alt)
  also have "\<dots> \<le> 2" by (simp add: unat_numeral)
  finally have "unat sequence_position < 2" .
  moreover have "0 < length (data c)" using len by simp
  ultimately have "\<exists>b c'. detect_clap_sequence c sequence_position buffer_position can_skip
      = Inr (b, c')"
    unfolding detect_clap_sequence_def
    using loop_result [of c sequence_position buffer_position can_skip 0] by blast
  moreover have "15 < buffer_position \<longrightarrow>
      detect_clap_sequence c sequence_position buffer_position can_skip = Inr (False, c)"
    unfolding detect_clap_sequence_def
    by (simp add: detect_clap_sequence_loop.simps [of c sequence_position buffer_position])
  ultimately show ?thesis by blast
qed

theorem matcher_total_witness:
  "(\<exists>b c'. detect_clap_sequence ring_cleared 1 16 0 = Inr (b, c'))
    \<and> detect_clap_sequence ring_cleared 1 16 0 = Inr (False, ring_cleared)"
proof -
  have "length (data ring_cleared) = 128" by (simp add: ring_cleared_def)
  moreover have "(1::16 word) < clap_sequence_size - 1" by (simp add: clap_sequence_size_def)
  moreover have "(15::16 word) < 16" by simp
  ultimately show ?thesis using matcher_total [of ring_cleared 1 16 0] by blast
qed

text \<open>
  Claim C8 (determinism, dead parameter). The result of the matcher is the same for any
  two values of \<open>can_skip\<close>; a call that returns false leaves the ring unchanged, so
  the same call on the ring it left returns false again.
\<close>

theorem matcher_ignores_can_skip:
  fixes c :: "(ulong, 'w::len) circular_buffer"
  shows "detect_clap_sequence c sequence_position buffer_position can_skip
      = detect_clap_sequence c sequence_position buffer_position can_skip'
    \<and> (detect_clap_sequence c sequence_position buffer_position can_skip = Inr (False, c')
        \<longrightarrow> c' = c \<and>
          detect_clap_sequence c' sequence_position buffer_position can_skip' = Inr (False, c'))"
proof -
  have same: "detect_clap_sequence c sequence_position buffer_position can_skip
      = detect_clap_sequence c sequence_position buffer_position can_skip'"
    unfolding detect_clap_sequence_def by (rule loop_can_skip)
  have "c' = c"
    if "detect_clap_sequence c sequence_position buffer_position can_skip = Inr (False, c')"
    using that loop_ring [of c sequence_position buffer_position can_skip 0 False c']
    unfolding detect_clap_sequence_def by simp
  with same show ?thesis by auto
qed

theorem matcher_ignores_can_skip_witness:
  "detect_clap_sequence ring_cleared 1 0 3 = detect_clap_sequence ring_cleared 1 0 4
    \<and> detect_clap_sequence ring_cleared 1 0 4 = Inr (False, ring_cleared)"
proof -
  from matcher_ignores_can_skip [of ring_cleared 1 0 3 4 ring_cleared] ring_cleared_miss
  show ?thesis by metis
qed

text \<open>
  Claim C9 (the ring is total and indexed by age). Start from the ring as initialised or
  as left by \<^verbatim>\<open>clear(0)\<close>, and insert the elements of any list \<open>xs\<close>. No insert
  faults; each writes at the head cursor, moves the cursor on by one and back to 0 after
  slot 127, and leaves 128 slots, so once 128 elements are in, it replaces the oldest. For every index the
  slot \<^verbatim>\<open>(head - index - 1) & (buffer_size - 1)\<close> is inside the array. For every age
  \<open>i < 128\<close>, \<^verbatim>\<open>operator[](i)\<close> is the element inserted \<open>i\<close> insertions earlier,
  and 0 when fewer than \<open>i + 1\<close> elements were inserted. The mask needs the power of
  two: in a ring of 3 slots, after inserting 7 and then 8, age 0 reads 7.
\<close>

theorem ring_total_and_ages:
  fixes c c0 :: "('t::zero, 'w::len) circular_buffer"
  assumes w: "16 \<le> LENGTH('w)"
    and start: "c = circular_buffer_init 128 \<or>
      (c = circular_buffer_clear 0 c0 \<and> length (data c0) = 128 \<and> unat (head c0) < 128)"
  shows "(\<exists>c'. insert_all xs c = Inr c' \<and> length (data c') = 128 \<and>
      unat (head c') < 128 \<and>
      (\<forall>x. circular_buffer_insert x c' =
        Inr (c'\<lparr>data := (data c')[unat (head c') := x],
          head := (if unat (head c') = 127 then 0 else head c' + 1)\<rparr>)) \<and>
      (\<forall>index. unat (slot c' index) < length (data c')) \<and>
      (\<forall>i<128. circular_buffer_subscript c' (of_nat i)
          = Inr (if i < length xs then rev xs ! i else 0)))
    \<and> (\<exists>c3. insert_all [7, 8] (circular_buffer_init 3 :: (ulong, 16) circular_buffer) = Inr c3
        \<and> circular_buffer_subscript c3 0 = Inr 7)"
proof -
  have ok: "length (data c) = 128 \<and> unat (head c) < 128 \<and> data c = replicate 128 0"
    using start
  proof
    assume "c = circular_buffer_init 128"
    then show ?thesis by (simp add: circular_buffer_init_def)
  next
    assume a: "c = circular_buffer_clear 0 c0 \<and> length (data c0) = 128 \<and> unat (head c0) < 128"
    then have "length (data c0) < 2 ^ LENGTH('w)" using width16 [OF w] by simp
    then have "circular_buffer_clear 0 c0 = c0\<lparr>data := replicate (length (data c0)) 0\<rparr>"
      by (rule clear_data)
    with a show ?thesis by simp
  qed
  then obtain c' where c': "insert_all xs c = Inr c'" "length (data c') = 128"
      "unat (head c') < 128"
      "\<forall>i<128. circular_buffer_subscript c' (of_nat i)
          = Inr (if i < length xs then rev xs ! i else 0)"
    using ages_after_inserts [OF w, of c xs] by blast
  have "unat (slot c' index) < length (data c')" for index
    using slot_in_bounds [of c' index] c'(2) by simp
  moreover have "circular_buffer_insert x c' =
        Inr (c'\<lparr>data := (data c')[unat (head c') := x],
          head := (if unat (head c') = 127 then 0 else head c' + 1)\<rparr>)" for x
    by (rule insert_ok [OF w c'(2) c'(3)])
  ultimately have first: "\<exists>c'. insert_all xs c = Inr c' \<and> length (data c') = 128 \<and>
      unat (head c') < 128 \<and>
      (\<forall>x. circular_buffer_insert x c' =
        Inr (c'\<lparr>data := (data c')[unat (head c') := x],
          head := (if unat (head c') = 127 then 0 else head c' + 1)\<rparr>)) \<and>
      (\<forall>index. unat (slot c' index) < length (data c')) \<and>
      (\<forall>i<128. circular_buffer_subscript c' (of_nat i)
          = Inr (if i < length xs then rev xs ! i else 0))"
    using c' by blast
  have "insert_all [7, 8] (circular_buffer_init 3 :: (ulong, 16) circular_buffer)
      = Inr \<lparr>head = 2, tail = 0, data = [7, 8, 0]\<rparr>"
    by code_simp
  moreover have "circular_buffer_subscript
      (\<lparr>head = 2, tail = 0, data = [7, 8, 0]\<rparr> :: (ulong, 16) circular_buffer) 0 = Inr 7"
    by code_simp
  ultimately have "\<exists>c3. insert_all [7, 8] (circular_buffer_init 3 :: (ulong, 16) circular_buffer)
      = Inr c3 \<and> circular_buffer_subscript c3 0 = Inr 7"
    by simp
  with first show ?thesis by blast
qed

theorem ring_total_and_ages_witness:
  "\<exists>c'. insert_all [5, 6, 7] (clap_init :: (ulong, 16) circular_buffer) = Inr c' \<and>
     circular_buffer_subscript c' 0 = Inr 7 \<and> circular_buffer_subscript c' 2 = Inr 5 \<and>
     circular_buffer_subscript c' 3 = Inr 0"
proof -
  from ring_total_and_ages [of "clap_init :: (ulong, 16) circular_buffer" clap_init "[5, 6, 7]"]
  obtain c' where c': "insert_all [5, 6, 7] (clap_init :: (ulong, 16) circular_buffer) = Inr c'"
    and ages: "\<forall>i<128. circular_buffer_subscript c' (of_nat i)
          = Inr (if i < length [5, 6, 7 :: ulong] then rev [5, 6, 7] ! i else 0)"
    by (auto simp: clap_init_def)
  from ages [rule_format, of 0] ages [rule_format, of 2] ages [rule_format, of 3] c'
  show ?thesis by simp
qed

text \<open>
  Claim C10 (gap sums are taken modulo the width of unsigned int). The sum of line 96 is
  the exact sum modulo \<open>2 ^ LENGTH('w)\<close>. Where \<^verbatim>\<open>unsigned int\<close> is narrower than
  \<^verbatim>\<open>unsigned long\<close>, a newest sample of \<open>1000 + 2 ^ LENGTH('w)\<close>, which is above
  \<open>target + max_clap_deviation\<close>, followed by a sample of 1000, is reported as a match.
\<close>

theorem gap_sum_truncates:
  fixes c :: "(ulong, 'w::len) circular_buffer"
  assumes w: "16 \<le> LENGTH('w)" and w32: "LENGTH('w) < 32"
    and len: "length (data c) = 128"
    and a0: "circular_buffer_subscript c 0 = Inr (1000 + 2 ^ LENGTH('w))"
    and a1: "circular_buffer_subscript c 1 = Inr 1000"
  shows "unat (add_sample current_delay sample :: 'w word)
      = (unat current_delay + unat sample) mod 2 ^ LENGTH('w)
    \<and> unat (clap_sequence_timings ! 1 + max_clap_deviation :: 'w word)
        < unat (1000 + 2 ^ LENGTH('w) :: ulong)
    \<and> detect_clap_sequence c (clap_sequence_size - 2) 0 can_skip
        = Inr (True, circular_buffer_clear 0 c)"
proof -
  have le32: "LENGTH('w) \<le> 32" using w32 by simp
  have pos: "0 < length (data c)" using len by simp
  have first: "unat (add_sample current_delay sample :: 'w word)
      = (unat current_delay + unat sample) mod 2 ^ LENGTH('w)"
    by (rule unat_add_sample [OF le32])
  have "unat (clap_sequence_timings ! 1 + max_clap_deviation :: 'w word) = 1200"
    by (simp add: timing_nth unat_bounds [OF w])
  then have second: "unat (clap_sequence_timings ! 1 + max_clap_deviation :: 'w word)
        < unat (1000 + 2 ^ LENGTH('w) :: ulong)"
    using width16 [OF w] unfolding wrapped_sample(1) [OF w w32] by linarith
  have d0: "data c ! unat (slot c 0) = 1000 + 2 ^ LENGTH('w)"
    and d1: "data c ! unat (slot c 1) = 1000"
    using a0 a1 by (simp_all add: subscript_total [OF pos])
  have cd: "unat (add_sample (0::'w word) (1000::ulong)) = 1000"
    by (simp add: sample_unit [OF w le32])
  have one: "unat (1::'w word) < 2" "unat (1::'w word) \<le> 15" "(1::'w word) \<noteq> 0" by simp_all
  have zero: "unat (0::'w word) < 2" "unat (0::'w word) \<le> 15" by simp_all
  have "detect_clap_sequence c 1 0 can_skip = detect_clap_sequence_loop c 0 1 can_skip 0"
    unfolding detect_clap_sequence_def
    by (subst detect_step [OF w pos one(1) zero(2)])
      (simp add: d0 Let_def wrapped_sample(2) [OF w w32])
  also have "\<dots> = Inr (True, circular_buffer_clear 0 c)"
    by (subst detect_step [OF w pos zero(1) one(2)]) (simp add: d1 cd)
  finally have third: "detect_clap_sequence c (clap_sequence_size - 2) 0 can_skip
        = Inr (True, circular_buffer_clear 0 c)"
    by (simp add: clap_sequence_size_def)
  from first second third show ?thesis by (intro conjI)
qed

theorem gap_sum_truncates_witness:
  "unat (add_sample (65000::16 word) 70000) = (65000 + 70000) mod 2 ^ 16
    \<and> (1200::nat) < 66536
    \<and> detect_clap_sequence ring_truncated 1 0 0 = Inr (True, circular_buffer_clear 0 ring_truncated)"
proof -
  have h1: "length (data ring_truncated) = 128" by (simp add: ring_truncated_def)
  have h2: "circular_buffer_subscript ring_truncated 0 = Inr (1000 + 2 ^ LENGTH(16))"
    by code_simp
  have h3: "circular_buffer_subscript ring_truncated 1 = Inr 1000" by code_simp
  from gap_sum_truncates [where c = ring_truncated and current_delay = 65000
      and sample = 70000 and can_skip = 0, OF _ _ h1 h2 h3]
  show ?thesis by (simp add: clap_sequence_size_def)
qed

end
